theory Spec2Isabelle
  imports Complex_Main "HOL-Library.Word" "HOL-Library.Char_ord" "HOL-Library.List_Lexorder"
    "HOL-Library.Log_Nat"
begin

text \<open>
  A model of the in-memory key-value storage: the chained hash table \<^verbatim>\<open>Dictionary\<close> with
  its incremental rehash, and \<^verbatim>\<open>InMemoryKVStorage\<close>, which keeps two such tables and two
  ordered sets.  Every function of the two classes is a function on the record of the
  class's fields that returns the new record with its result.
\<close>

section \<open>Faults\<close>

text \<open>
  The C++ operations return plain values.  What can go wrong in them is a thrown
  \<^verbatim>\<open>std::bad_optional_access\<close> (\<^verbatim>\<open>optional::value()\<close> on an empty optional) or undefined
  behaviour (a remainder by zero, a read past the end of a bucket array, a dereference of a
  moved-from \<^verbatim>\<open>shared_ptr\<close>).  Each of them is a value of \<open>fault\<close>, and every operation of the
  model returns \<open>fault + result\<close>.
\<close>

datatype fault = DivisionByZero | OutOfBounds | NullDereference | BadOptionalAccess

definition faultBind :: "fault + 'a \<Rightarrow> ('a \<Rightarrow> fault + 'b) \<Rightarrow> fault + 'b" where
  "faultBind m f = (case m of Inl e \<Rightarrow> Inl e | Inr x \<Rightarrow> f x)"

section \<open>Bucket.h and Dictionary.h\<close>

text \<open>
  A \<^verbatim>\<open>Bucket\<close> holds a key, a value and the \<^verbatim>\<open>next\<close> pointer; a chain of buckets is the list
  of its nodes from the head on, \<^verbatim>\<open>nullptr\<close> being the empty list.  Keys and values are held
  by value: the dictionary only ever compares the pointees (\<^verbatim>\<open>*(tmp->key) != key\<close>).

  \<^verbatim>\<open>std::size_t\<close> quantities are natural numbers; the sentinel \<^verbatim>\<open>_rehashIndex = -1\<close> is
  \<open>SIZE_MAX\<close>.  \<^verbatim>\<open>_dictionaryUsed\<close> goes up by one with every node that is linked in and
  down by one with every node that \<^verbatim>\<open>_remove\<close> unlinks, so it is never decremented at zero
  and the wrap-around of \<^verbatim>\<open>std::size_t\<close> does not come into play.  The hash functor
  \<^verbatim>\<open>_hashFunction\<close> is the parameter \<open>h\<close> of every operation.
\<close>

datatype ('k, 'v) Bucket = Bucket (key: 'k) (val: 'v)

record ('k, 'v) Dictionary =
  dictionary :: "('k, 'v) Bucket list list"
  dictionarySize :: nat
  dictionaryUsed :: nat
  alternativeDictionary :: "('k, 'v) Bucket list list"
  alternativeDictionarySize :: nat
  rehashIndex :: nat

definition SIZE_MAX :: nat where
  "SIZE_MAX = 2 ^ 64 - 1"

definition BASIC_DICTIONARY_SIZE :: nat where
  "BASIC_DICTIONARY_SIZE = 8"

definition DICTIONARY_REHASH_BUCKET_COUNT :: nat where
  "DICTIONARY_REHASH_BUCKET_COUNT = 32"

text \<open>
  A \<^verbatim>\<open>double\<close> is the rational number that it denotes.  \<open>roundDouble\<close> is the rounding of the
  arithmetic of \<^verbatim>\<open>double\<close>: to the nearest number with \<open>53\<close> significant bits, a tie going
  to the one whose last bit is \<open>0\<close>.  For \<open>q\<close> with \<open>2 ^ e \<le> \<bar>q\<bar> < 2 ^ (e + 1)\<close> these numbers
  are the multiples of \<open>2 ^ (e - 52)\<close>; \<open>binaryExponent\<close> finds \<open>e\<close> from the bit lengths of
  numerator and denominator.  The range of the exponent is not modelled: the numbers that are
  rounded here are \<^verbatim>\<open>std::size_t\<close> quantities and quotients of two of them, which lie between
  \<open>2 ^ - 64\<close> and \<open>2 ^ 64\<close> when they are not \<open>0\<close>.
\<close>

definition roundEven :: "rat \<Rightarrow> int" where
  "roundEven x =
     (let f = \<lfloor>x\<rfloor> in
      if x - of_int f < 1 / 2 then f
      else if 1 / 2 < x - of_int f then f + 1
      else if even f then f else f + 1)"

definition binaryExponent :: "rat \<Rightarrow> int" where
  "binaryExponent q =
     (let (a, b) = quotient_of q; k = bitlen a - bitlen b in
      if 2 powi k \<le> q then k else k - 1)"

definition roundDouble :: "rat \<Rightarrow> rat" where
  "roundDouble q =
     (if q = 0 then 0
      else let ulp = 2 powi (binaryExponent \<bar>q\<bar> - 52) in of_int (roundEven (q / ulp)) * ulp)"

text \<open>
  The two limits are \<^verbatim>\<open>double\<close> constants initialised from the \<^verbatim>\<open>float\<close> literals \<^verbatim>\<open>0.01f\<close> and
  \<^verbatim>\<open>1.2f\<close>; their exact values are the binary fractions below.
\<close>

definition DICTIONARY_LOW_LIMIT_REHASH :: rat where
  "DICTIONARY_LOW_LIMIT_REHASH = 5368709 / 536870912"

definition DICTIONARY_HIGH_LIMIT_REHASH :: rat where
  "DICTIONARY_HIGH_LIMIT_REHASH = 5033165 / 4194304"

definition newDictionary :: "nat \<Rightarrow> ('k, 'v) Dictionary" where
  "newDictionary n =
     \<lparr> dictionary = replicate n [], dictionarySize = n, dictionaryUsed = 0,
       alternativeDictionary = [], alternativeDictionarySize = 0, rehashIndex = SIZE_MAX \<rparr>"

definition getBucketIndex :: "('k \<Rightarrow> nat) \<Rightarrow> 'k \<Rightarrow> nat \<Rightarrow> fault + nat" where
  "getBucketIndex h k n = (if n = 0 then Inl DivisionByZero else Inr (h k mod n))"

text \<open>
  \<^verbatim>\<open>fillFactor\<close> is \<^verbatim>\<open>static_cast<double>(_dictionaryUsed) / _dictionarySize\<close>: both counters
  are converted to \<^verbatim>\<open>double\<close> and the division is the one of \<^verbatim>\<open>double\<close>, so there are three
  roundings.  With \<^verbatim>\<open>_dictionarySize\<close> zero the quotient of the source is an infinity or a NaN
  and the one of the model is \<open>0\<close>; \<^verbatim>\<open>fillFactor\<close> is only called behind the test
  \<^verbatim>\<open>_dictionarySize > BASIC_DICTIONARY_SIZE\<close> of \<^verbatim>\<open>isNeedRehash\<close>.
\<close>

definition fillFactor :: "('k, 'v) Dictionary \<Rightarrow> rat" where
  "fillFactor d =
     roundDouble (roundDouble (of_nat (dictionaryUsed d)) / roundDouble (of_nat (dictionarySize d)))"

text \<open>
  The internal methods take the bucket array as a pointer.  The model names the array
  (\<open>Primary\<close> for \<^verbatim>\<open>_dictionary\<close>, \<open>Alternative\<close> for \<^verbatim>\<open>_alternativeDictionary\<close>) and reads and
  writes it through \<open>tableOf\<close> and \<open>storeTable\<close>.
\<close>

datatype table = Primary | Alternative

definition tableOf :: "table \<Rightarrow> ('k, 'v) Dictionary \<Rightarrow> ('k, 'v) Bucket list list" where
  "tableOf t d = (case t of Primary \<Rightarrow> dictionary d | Alternative \<Rightarrow> alternativeDictionary d)"

definition storeTable ::
  "table \<Rightarrow> ('k, 'v) Bucket list list \<Rightarrow> ('k, 'v) Dictionary \<Rightarrow> ('k, 'v) Dictionary" where
  "storeTable t a d =
     (case t of Primary \<Rightarrow> d\<lparr>dictionary := a\<rparr> | Alternative \<Rightarrow> d\<lparr>alternativeDictionary := a\<rparr>)"

text \<open>The chain walk \<^verbatim>\<open>while (tmp != nullptr && *(tmp->key) != key) tmp = tmp->next\<close>.\<close>

fun walk :: "'k \<Rightarrow> ('k, 'v) Bucket list \<Rightarrow> ('k, 'v) Bucket option" where
  "walk k [] = None"
| "walk k (b # next) = (if key b \<noteq> k then walk k next else Some b)"

text \<open>\<^verbatim>\<open>pBucket->value = std::move(value)\<close> on the node the walk stops at.\<close>

fun assignValue :: "'k \<Rightarrow> 'v \<Rightarrow> ('k, 'v) Bucket list \<Rightarrow> ('k, 'v) Bucket list" where
  "assignValue k v [] = []"
| "assignValue k v (b # next) =
     (if key b \<noteq> k then b # assignValue k v next else Bucket (key b) v # next)"

text \<open>
  Unlinking the node the walk of \<^verbatim>\<open>_remove\<close> stops at: the head
  (\<^verbatim>\<open>pDictionary[index] = current->next\<close>) or an inner node (\<^verbatim>\<open>prev->next = current->next\<close>).
\<close>

fun unlink :: "'k \<Rightarrow> ('k, 'v) Bucket list \<Rightarrow> ('k, 'v) Bucket list" where
  "unlink k [] = []"
| "unlink k (b # next) = (if key b \<noteq> k then b # unlink k next else next)"

text \<open>
  \<^verbatim>\<open>_set\<close>.  The new node of the last case is linked in front of \<^verbatim>\<open>_dictionary[index]\<close>, the
  chain of the primary array, whichever array \<^verbatim>\<open>pDictionary\<close> is.
\<close>

definition internal_set ::
  "('k \<Rightarrow> nat) \<Rightarrow> 'k \<Rightarrow> 'v \<Rightarrow> table \<Rightarrow> nat \<Rightarrow> ('k, 'v) Dictionary
     \<Rightarrow> fault + ('k, 'v) Dictionary" where
  "internal_set h k v t n d =
     faultBind (getBucketIndex h k n) (\<lambda>index.
       let pDictionary = tableOf t d in
       if \<not> index < length pDictionary then Inl OutOfBounds
       else if pDictionary ! index = [] then
         Inr (storeTable t (pDictionary[index := [Bucket k v]])
               (d\<lparr>dictionaryUsed := dictionaryUsed d + 1\<rparr>))
       else if walk k (pDictionary ! index) \<noteq> None then
         Inr (storeTable t (pDictionary[index := assignValue k v (pDictionary ! index)]) d)
       else if \<not> index < length (dictionary d) then Inl OutOfBounds
       else
         Inr (storeTable t (pDictionary[index := Bucket k v # dictionary d ! index])
               (d\<lparr>dictionaryUsed := dictionaryUsed d + 1\<rparr>)))"

definition internal_get ::
  "('k \<Rightarrow> nat) \<Rightarrow> 'k \<Rightarrow> table \<Rightarrow> nat \<Rightarrow> ('k, 'v) Dictionary
     \<Rightarrow> fault + ('k, 'v) Bucket option" where
  "internal_get h k t n d =
     faultBind (getBucketIndex h k n) (\<lambda>index.
       let pDictionary = tableOf t d in
       if \<not> index < length pDictionary then Inl OutOfBounds
       else Inr (walk k (pDictionary ! index)))"

definition internal_remove ::
  "('k \<Rightarrow> nat) \<Rightarrow> 'k \<Rightarrow> table \<Rightarrow> nat \<Rightarrow> ('k, 'v) Dictionary
     \<Rightarrow> fault + (('k, 'v) Dictionary \<times> bool)" where
  "internal_remove h k t n d =
     faultBind (getBucketIndex h k n) (\<lambda>index.
       let pDictionary = tableOf t d in
       if \<not> index < length pDictionary then Inl OutOfBounds
       else if walk k (pDictionary ! index) = None then Inr (d, False)
       else
         Inr (storeTable t (pDictionary[index := unlink k (pDictionary ! index)])
               (d\<lparr>dictionaryUsed := dictionaryUsed d - 1\<rparr>), True))"

definition isNeedRehash :: "('k, 'v) Dictionary \<Rightarrow> bool" where
  "isNeedRehash d \<longleftrightarrow>
     dictionarySize d > BASIC_DICTIONARY_SIZE \<and> dictionaryUsed d \<noteq> 0 \<and>
     (fillFactor d < DICTIONARY_LOW_LIMIT_REHASH \<or> fillFactor d > DICTIONARY_HIGH_LIMIT_REHASH)"

definition isRehashing :: "('k, 'v) Dictionary \<Rightarrow> bool" where
  "isRehashing d \<longleftrightarrow> rehashIndex d \<noteq> SIZE_MAX"

definition prepareRehash :: "('k, 'v) Dictionary \<Rightarrow> ('k, 'v) Dictionary" where
  "prepareRehash d =
     (let n = (if fillFactor d < DICTIONARY_LOW_LIMIT_REHASH
               then dictionarySize d div 2 else dictionarySize d * 2)
      in d\<lparr>alternativeDictionarySize := n, alternativeDictionary := replicate n [],
           rehashIndex := 0\<rparr>)"

text \<open>
  The loop of \<^verbatim>\<open>rehash\<close>: at most \<^verbatim>\<open>DICTIONARY_REHASH_BUCKET_COUNT\<close> buckets from the cursor
  on.  A bucket that is not empty has all its nodes deleted and is set to \<^verbatim>\<open>nullptr\<close>; no
  node is moved to the alternative array.
\<close>

function rehashLoop :: "nat \<Rightarrow> ('k, 'v) Dictionary \<Rightarrow> fault + ('k, 'v) Dictionary" where
  "rehashLoop i d =
     (if i < DICTIONARY_REHASH_BUCKET_COUNT \<and> rehashIndex d < dictionarySize d then
        (if \<not> rehashIndex d < length (dictionary d) then Inl OutOfBounds
         else if dictionary d ! rehashIndex d = [] then
           rehashLoop (i + 1) (d\<lparr>rehashIndex := rehashIndex d + 1\<rparr>)
         else
           rehashLoop (i + 1)
             (d\<lparr>dictionary := (dictionary d)[rehashIndex d := []],
                rehashIndex := rehashIndex d + 1\<rparr>))
      else Inr d)"
  by pat_completeness auto
termination
  by (relation "measure (\<lambda>(i, d). DICTIONARY_REHASH_BUCKET_COUNT - i)") auto

text \<open>
  When the cursor has reached \<^verbatim>\<open>_dictionarySize\<close> the alternative array becomes the primary
  one.  \<^verbatim>\<open>_dictionarySize\<close> keeps its value.
\<close>

definition rehash :: "('k, 'v) Dictionary \<Rightarrow> fault + ('k, 'v) Dictionary" where
  "rehash d =
     faultBind (rehashLoop 0 d) (\<lambda>d1.
       if rehashIndex d1 = dictionarySize d1 then
         Inr (d1\<lparr>rehashIndex := SIZE_MAX, dictionary := alternativeDictionary d1,
                 alternativeDictionary := []\<rparr>)
       else Inr d1)"

definition preCommandActions :: "('k, 'v) Dictionary \<Rightarrow> fault + ('k, 'v) Dictionary" where
  "preCommandActions d =
     (if isRehashing d then rehash d
      else if isNeedRehash d then rehash (prepareRehash d)
      else Inr d)"

text \<open>
  \<^verbatim>\<open>Dictionary::set\<close>.  While a rehash is in progress, \<^verbatim>\<open>key\<close> has been moved into the
  parameter of \<^verbatim>\<open>_set\<close> and is empty when \<^verbatim>\<open>_remove(*key, ...)\<close> dereferences it.
\<close>

definition dict_set ::
  "('k \<Rightarrow> nat) \<Rightarrow> 'k \<Rightarrow> 'v \<Rightarrow> ('k, 'v) Dictionary \<Rightarrow> fault + ('k, 'v) Dictionary" where
  "dict_set h k v d =
     faultBind (preCommandActions d) (\<lambda>d1.
       if isRehashing d1 then
         faultBind (internal_set h k v Alternative (alternativeDictionarySize d1) d1)
           (\<lambda>d2. Inl NullDereference)
       else internal_set h k v Primary (dictionarySize d1) d1)"

definition dict_remove ::
  "('k \<Rightarrow> nat) \<Rightarrow> 'k \<Rightarrow> ('k, 'v) Dictionary \<Rightarrow> fault + (('k, 'v) Dictionary \<times> bool)" where
  "dict_remove h k d =
     faultBind (preCommandActions d) (\<lambda>d1.
       if isRehashing d1 then
         faultBind (internal_remove h k Alternative (alternativeDictionarySize d1) d1)
           (\<lambda>(d2, found).
              if found then Inr (d2, True)
              else internal_remove h k Primary (dictionarySize d2) d2)
       else internal_remove h k Primary (dictionarySize d1) d1)"

definition dict_get ::
  "('k \<Rightarrow> nat) \<Rightarrow> 'k \<Rightarrow> ('k, 'v) Dictionary
     \<Rightarrow> fault + (('k, 'v) Dictionary \<times> 'v option)" where
  "dict_get h k d =
     faultBind (preCommandActions d) (\<lambda>d1.
       if isRehashing d1 then
         faultBind (internal_get h k Alternative (alternativeDictionarySize d1) d1)
           (\<lambda>alternativeResult.
              case alternativeResult of
                Some b \<Rightarrow> Inr (d1, Some (val b))
              | None \<Rightarrow>
                  faultBind (internal_get h k Primary (dictionarySize d1) d1)
                    (\<lambda>result. Inr (d1, map_option val result)))
       else
         faultBind (internal_get h k Primary (dictionarySize d1) d1)
           (\<lambda>result. Inr (d1, map_option val result)))"

section \<open>InMemoryKVStorage.h\<close>

text \<open>
  A \<^verbatim>\<open>shared_ptr\<close> is the address of its object together with the object.  The address is
  what \<^verbatim>\<open>operator<\<close> of \<^verbatim>\<open>shared_ptr\<close> compares; the objects are never written after
  they have entered a container.  \<^verbatim>\<open>Key\<close> is any linearly ordered type; for
  \<^verbatim>\<open>std::string\<close>, as in the tests, it is \<open>string\<close> with the lexicographic order on bytes.
  \<^verbatim>\<open>Ttl\<close> is \<^verbatim>\<open>int\<close> in the repository's instantiation, and so is the time of its clock:
  32 bits, two's complement.  Times and expirations are integers of HOL; the result of an
  addition in \<^verbatim>\<open>int\<close> is brought back into the range by \<open>intWrap\<close>, which is the identity
  on the range.  (C++ leaves the overflow of \<^verbatim>\<open>int\<close> undefined; the model takes the two's
  complement result.)
\<close>

definition INT_MIN :: int where
  "INT_MIN = - 2147483648"

definition INT_MAX :: int where
  "INT_MAX = 2147483647"

definition inIntRange :: "int \<Rightarrow> bool" where
  "inIntRange x \<longleftrightarrow> INT_MIN \<le> x \<and> x \<le> INT_MAX"

definition intWrap :: "int \<Rightarrow> int" where
  "intWrap x = (x + 2147483648) mod 4294967296 - 2147483648"

type_synonym 'a shared_ptr = "nat \<times> 'a"

definition ptrLess :: "'a shared_ptr \<Rightarrow> 'b shared_ptr \<Rightarrow> bool" where
  "ptrLess p q \<longleftrightarrow> fst p < fst q"

text \<open>\<^verbatim>\<open>operator<\<close> of \<^verbatim>\<open>std::pair\<close>, the ordering of \<^verbatim>\<open>_setSortedTtlPtr\<close>.\<close>

definition pairLess ::
  "'a shared_ptr \<times> 'b shared_ptr \<Rightarrow> 'a shared_ptr \<times> 'b shared_ptr \<Rightarrow> bool" where
  "pairLess x y \<longleftrightarrow>
     ptrLess (fst x) (fst y) \<or> (\<not> ptrLess (fst y) (fst x) \<and> ptrLess (snd x) (snd y))"

text \<open>\<^verbatim>\<open>ComparatorPtrKey\<close>, the ordering of \<^verbatim>\<open>_setSortedKeyPtr\<close>: \<^verbatim>\<open>*lhs < *rhs\<close>.\<close>

definition ComparatorPtrKey :: "('k::linorder) shared_ptr \<Rightarrow> 'k shared_ptr \<Rightarrow> bool" where
  "ComparatorPtrKey lhs rhs \<longleftrightarrow> snd lhs < snd rhs"

text \<open>
  A \<^verbatim>\<open>std::set\<close> is the list of its elements in the order of its comparator.
  \<^verbatim>\<open>insert\<close> keeps the set unchanged when an equivalent element is present.
\<close>

fun std_set_insert :: "('a \<Rightarrow> 'a \<Rightarrow> bool) \<Rightarrow> 'a \<Rightarrow> 'a list \<Rightarrow> 'a list" where
  "std_set_insert cmp x [] = [x]"
| "std_set_insert cmp x (y # ys) =
     (if cmp x y then x # y # ys
      else if cmp y x then y # std_set_insert cmp x ys
      else y # ys)"

text \<open>
  Erasing the first element that satisfies a predicate, when there is one: \<^verbatim>\<open>std::find_if\<close>
  from \<^verbatim>\<open>begin()\<close> followed by \<^verbatim>\<open>erase\<close>, and \<^verbatim>\<open>find\<close> followed by \<^verbatim>\<open>erase\<close> with the
  predicate "equivalent to the key looked for".
\<close>

fun eraseFirst :: "('a \<Rightarrow> bool) \<Rightarrow> 'a list \<Rightarrow> 'a list" where
  "eraseFirst P [] = []"
| "eraseFirst P (y # ys) = (if P y then ys else y # eraseFirst P ys)"

definition equivalentKey :: "('k::linorder) \<Rightarrow> 'k shared_ptr \<Rightarrow> bool" where
  "equivalentKey k p \<longleftrightarrow> \<not> k < snd p \<and> \<not> snd p < k"

record ('k, 'v) InMemoryKVStorage =
  keyValueDictionary :: "('k, 'v) Dictionary"
  keyTtlDictionary :: "('k, int) Dictionary"
  setSortedKeyPtr :: "'k shared_ptr list"
  setSortedTtlPtr :: "('k shared_ptr \<times> int shared_ptr) list"

text \<open>The constructor: both dictionaries are built with the default size.\<close>

definition newStorage :: "('k, 'v) InMemoryKVStorage" where
  "newStorage =
     \<lparr> keyValueDictionary = newDictionary BASIC_DICTIONARY_SIZE,
       keyTtlDictionary = newDictionary BASIC_DICTIONARY_SIZE,
       setSortedKeyPtr = [], setSortedTtlPtr = [] \<rparr>"

text \<open>
  Every operation that reads the clock takes the reading \<open>now\<close>; the clock does not move
  during a call.
\<close>

definition isExist ::
  "('k \<Rightarrow> nat) \<Rightarrow> 'k \<Rightarrow> ('k, 'v) InMemoryKVStorage
     \<Rightarrow> fault + (('k, 'v) InMemoryKVStorage \<times> bool)" where
  "isExist h k s =
     faultBind (dict_get h k (keyValueDictionary s)) (\<lambda>(kv, r).
       Inr (s\<lparr>keyValueDictionary := kv\<rparr>, r \<noteq> None))"

definition isExpired ::
  "('k \<Rightarrow> nat) \<Rightarrow> int \<Rightarrow> 'k \<Rightarrow> ('k, 'v) InMemoryKVStorage
     \<Rightarrow> fault + (('k, 'v) InMemoryKVStorage \<times> bool)" where
  "isExpired h now k s =
     faultBind (dict_get h k (keyTtlDictionary s)) (\<lambda>(kt, ttl).
       Inr (s\<lparr>keyTtlDictionary := kt\<rparr>,
            (case ttl of Some t \<Rightarrow> t < now | None \<Rightarrow> False)))"

text \<open>
  \<^verbatim>\<open>set\<close>.  \<open>aKey\<close> and \<open>aTtl\<close> are the addresses \<^verbatim>\<open>make_shared\<close> returns for \<^verbatim>\<open>pKey\<close> and
  \<^verbatim>\<open>pTtl\<close>.  \<^verbatim>\<open>*pTtl += _clock.now()\<close> is an addition in \<^verbatim>\<open>int\<close>.
\<close>

definition kv_set ::
  "('k \<Rightarrow> nat) \<Rightarrow> int \<Rightarrow> nat \<Rightarrow> nat \<Rightarrow> ('k::linorder) \<Rightarrow> 'v \<Rightarrow> int
     \<Rightarrow> ('k, 'v) InMemoryKVStorage \<Rightarrow> fault + ('k, 'v) InMemoryKVStorage" where
  "kv_set h now aKey aTtl k v ttl s =
     (let pKey = (aKey, k) in
      faultBind (dict_set h k v (keyValueDictionary s)) (\<lambda>kv.
        let s1 = s\<lparr>keyValueDictionary := kv,
                   setSortedKeyPtr := std_set_insert ComparatorPtrKey pKey (setSortedKeyPtr s)\<rparr>
        in
        if ttl \<noteq> 0 then
          (let pTtl = (aTtl, intWrap (ttl + now)) in
           faultBind (dict_set h k (snd pTtl) (keyTtlDictionary s1)) (\<lambda>kt.
             Inr (s1\<lparr>keyTtlDictionary := kt,
                      setSortedTtlPtr :=
                        std_set_insert pairLess (pKey, pTtl) (setSortedTtlPtr s1)\<rparr>)))
        else Inr s1))"

text \<open>
  \<^verbatim>\<open>remove\<close>.  \<^verbatim>\<open>oTtl\<close> is read from \<^verbatim>\<open>_keyValueDictionary\<close>, as in the source.
\<close>

definition kv_remove ::
  "('k \<Rightarrow> nat) \<Rightarrow> ('k::linorder) \<Rightarrow> ('k, 'v) InMemoryKVStorage
     \<Rightarrow> fault + (('k, 'v) InMemoryKVStorage \<times> bool)" where
  "kv_remove h k s =
     faultBind (isExist h k s) (\<lambda>(s1, exist).
       if \<not> exist then Inr (s1, False)
       else
         faultBind (dict_get h k (keyValueDictionary s1)) (\<lambda>(kv2, oTtl).
         faultBind (dict_remove h k kv2) (\<lambda>(kv3, removed).
           let s3 = s1\<lparr>keyValueDictionary := kv3,
                      setSortedKeyPtr := eraseFirst (equivalentKey k) (setSortedKeyPtr s1)\<rparr>
           in
           if oTtl \<noteq> None then
             faultBind (dict_remove h k (keyTtlDictionary s3)) (\<lambda>(kt, removedTtl).
               Inr (s3\<lparr>keyTtlDictionary := kt,
                        setSortedTtlPtr :=
                          eraseFirst (\<lambda>pair. snd (fst pair) = k) (setSortedTtlPtr s3)\<rparr>,
                    True))
           else Inr (s3, True))))"

definition kv_get ::
  "('k \<Rightarrow> nat) \<Rightarrow> int \<Rightarrow> 'k \<Rightarrow> ('k, 'v) InMemoryKVStorage
     \<Rightarrow> fault + (('k, 'v) InMemoryKVStorage \<times> 'v option)" where
  "kv_get h now k s =
     faultBind (isExist h k s) (\<lambda>(s1, exist).
       if \<not> exist then Inr (s1, None)
       else
         faultBind (isExpired h now k s1) (\<lambda>(s2, expired).
           if expired then Inr (s2, None)
           else
             faultBind (dict_get h k (keyValueDictionary s2)) (\<lambda>(kv3, r).
               case r of
                 None \<Rightarrow> Inl BadOptionalAccess
               | Some v \<Rightarrow> Inr (s2\<lparr>keyValueDictionary := kv3\<rparr>, Some v))))"

text \<open>
  The loop of \<^verbatim>\<open>getManySorted\<close>.  \<open>i\<close> is the \<^verbatim>\<open>size_t\<close> counter, \<open>count\<close> the \<^verbatim>\<open>uint32_t\<close>
  bound, the list is what the iterator \<^verbatim>\<open>it\<close> has in front of it (no operation of the loop
  changes \<^verbatim>\<open>_setSortedKeyPtr\<close>).  On an expired key the counter is decremented, wrapping
  around at zero, and the loop header increments it again.
\<close>

fun getManySortedLoop ::
  "('k \<Rightarrow> nat) \<Rightarrow> int \<Rightarrow> 32 word \<Rightarrow> 64 word \<Rightarrow> 'k shared_ptr list \<Rightarrow> ('k \<times> 'v) list
     \<Rightarrow> ('k, 'v) InMemoryKVStorage
     \<Rightarrow> fault + (('k, 'v) InMemoryKVStorage \<times> ('k \<times> 'v) list)" where
  "getManySortedLoop h now count i [] result s = Inr (s, result)"
| "getManySortedLoop h now count i (p # it) result s =
     (if \<not> i < ucast count then Inr (s, result)
      else
        faultBind (isExpired h now (snd p) s) (\<lambda>(s1, expired).
          if expired then getManySortedLoop h now count ((i - 1) + 1) it result s1
          else
            faultBind (kv_get h now (snd p) s1) (\<lambda>(s2, r).
              case r of
                None \<Rightarrow> Inl BadOptionalAccess
              | Some v \<Rightarrow>
                  getManySortedLoop h now count (i + 1) it (result @ [(snd p, v)]) s2)))"

text \<open>\<^verbatim>\<open>lower_bound\<close>: the elements from the first one that is not less than the key.\<close>

definition lower_bound :: "('k::linorder) \<Rightarrow> 'k shared_ptr list \<Rightarrow> 'k shared_ptr list" where
  "lower_bound k xs = dropWhile (\<lambda>p. snd p < k) xs"

definition getManySorted ::
  "('k \<Rightarrow> nat) \<Rightarrow> int \<Rightarrow> ('k::linorder) \<Rightarrow> 32 word \<Rightarrow> ('k, 'v) InMemoryKVStorage
     \<Rightarrow> fault + (('k, 'v) InMemoryKVStorage \<times> ('k \<times> 'v) list)" where
  "getManySorted h now k count s =
     getManySortedLoop h now count 0 (lower_bound k (setSortedKeyPtr s)) [] s"

definition removeOneExpiredEntry ::
  "('k \<Rightarrow> nat) \<Rightarrow> int \<Rightarrow> ('k::linorder, 'v) InMemoryKVStorage
     \<Rightarrow> fault + (('k, 'v) InMemoryKVStorage \<times> ('k \<times> 'v) option)" where
  "removeOneExpiredEntry h now s =
     (case setSortedTtlPtr s of
        [] \<Rightarrow> Inr (s, None)
      | it # rest \<Rightarrow>
          if snd (snd it) < now then
            (let k = snd (fst it) in
             faultBind (dict_get h k (keyValueDictionary s)) (\<lambda>(kv, r).
               case r of
                 None \<Rightarrow> Inl BadOptionalAccess
               | Some v \<Rightarrow>
                   faultBind (kv_remove h k (s\<lparr>keyValueDictionary := kv\<rparr>)) (\<lambda>(s1, removed).
                     Inr (s1, Some (k, v)))))
          else Inr (s, None))"

section \<open>The test fixture\<close>

text \<open>
  A test creates a \<^verbatim>\<open>MockClock\<close> and a storage, and then calls the storage and advances the
  clock.  \<open>call\<close> is one such step on the pair of the clock's time and the storage, \<open>run\<close> a
  sequence of them; a fault ends the run.  \<open>Set\<close> carries the two addresses that
  \<^verbatim>\<open>make_shared\<close> returns in that call.  \<^verbatim>\<open>MockClock::advance\<close> is
  \<^verbatim>\<open>currentTime += sec\<close>, an addition in \<^verbatim>\<open>int\<close>.
\<close>

datatype ('k, 'v) request =
    Set nat nat 'k 'v int
  | Remove 'k
  | Get 'k
  | GetManySorted 'k "32 word"
  | RemoveOneExpiredEntry
  | Advance int

datatype ('k, 'v) reply =
    Done
  | Removed bool
  | Value "'v option"
  | Entries "('k \<times> 'v) list"
  | Entry "('k \<times> 'v) option"

fun call ::
  "('k \<Rightarrow> nat) \<Rightarrow> ('k::linorder, 'v) request \<Rightarrow> int \<times> ('k, 'v) InMemoryKVStorage
     \<Rightarrow> fault + ((int \<times> ('k, 'v) InMemoryKVStorage) \<times> ('k, 'v) reply)" where
  "call h (Set aKey aTtl k v ttl) (now, s) =
     faultBind (kv_set h now aKey aTtl k v ttl s) (\<lambda>s1. Inr ((now, s1), Done))"
| "call h (Remove k) (now, s) =
     faultBind (kv_remove h k s) (\<lambda>(s1, r). Inr ((now, s1), Removed r))"
| "call h (Get k) (now, s) =
     faultBind (kv_get h now k s) (\<lambda>(s1, r). Inr ((now, s1), Value r))"
| "call h (GetManySorted k count) (now, s) =
     faultBind (getManySorted h now k count s) (\<lambda>(s1, r). Inr ((now, s1), Entries r))"
| "call h RemoveOneExpiredEntry (now, s) =
     faultBind (removeOneExpiredEntry h now s) (\<lambda>(s1, r). Inr ((now, s1), Entry r))"
| "call h (Advance sec) (now, s) = Inr ((intWrap (now + sec), s), Done)"

fun run ::
  "('k \<Rightarrow> nat) \<Rightarrow> ('k::linorder, 'v) request list \<Rightarrow> int \<times> ('k, 'v) InMemoryKVStorage
     \<Rightarrow> fault + ((int \<times> ('k, 'v) InMemoryKVStorage) \<times> ('k, 'v) reply list)" where
  "run h [] st = Inr (st, [])"
| "run h (c # cs) st =
     faultBind (call h c st) (\<lambda>(st1, r).
       faultBind (run h cs st1) (\<lambda>(st2, rs). Inr (st2, r # rs)))"

text \<open>The replies of a run.\<close>

definition replies :: "fault + (('t \<times> 's) \<times> 'r) \<Rightarrow> fault + 'r" where
  "replies m = map_sum id snd m"

text \<open>
  A storage is reachable when some run from the empty storage ends in it, whatever the clock
  did in between.
\<close>

definition reachable :: "('k \<Rightarrow> nat) \<Rightarrow> ('k::linorder, 'v) InMemoryKVStorage \<Rightarrow> bool" where
  "reachable h s \<longleftrightarrow> (\<exists>cs t0 t rs. run h cs (t0, newStorage) = Inr ((t, s), rs))"

text \<open>Hash functors for concrete runs: of \<^verbatim>\<open>std::string\<close> keys and of unsigned keys.\<close>

definition stringHash :: "string \<Rightarrow> nat" where
  "stringHash k = length k"

definition identityHash :: "nat \<Rightarrow> nat" where
  "identityHash k = k"

section \<open>What the dictionaries of the storage hold\<close>

text \<open>
  The content of a dictionary that is not rehashing: the value of the node the walk of
  \<^verbatim>\<open>_get\<close> stops at in the bucket of the key.
\<close>

definition lookup :: "('k \<Rightarrow> nat) \<Rightarrow> ('k, 'v) Dictionary \<Rightarrow> 'k \<Rightarrow> 'v option" where
  "lookup h d k = map_option val (walk k (dictionary d ! (h k mod dictionarySize d)))"

text \<open>
  A dictionary is stable when it is not rehashing, has between one and
  \<^verbatim>\<open>BASIC_DICTIONARY_SIZE\<close> buckets, as many as \<^verbatim>\<open>_dictionarySize\<close> says, and no chain holds a
  key twice.
\<close>

definition stable :: "('k, 'v) Dictionary \<Rightarrow> bool" where
  "stable d \<longleftrightarrow>
     rehashIndex d = SIZE_MAX \<and> 0 < dictionarySize d \<and>
     dictionarySize d \<le> BASIC_DICTIONARY_SIZE \<and>
     length (dictionary d) = dictionarySize d \<and>
     (\<forall>c \<in> set (dictionary d). distinct (map key c))"

text \<open>The chain \<^verbatim>\<open>_set\<close> leaves in the bucket of the key, in its three cases.\<close>

definition setChain :: "'k \<Rightarrow> 'v \<Rightarrow> ('k, 'v) Bucket list \<Rightarrow> ('k, 'v) Bucket list" where
  "setChain k v c =
     (if c = [] then [Bucket k v]
      else if walk k c \<noteq> None then assignValue k v c
      else Bucket k v # c)"

text \<open>
  The invariant of the storage: both dictionaries are stable, the key-ordered set is
  strictly increasing and holds the keys of the value dictionary.
\<close>

definition storageInv :: "('k \<Rightarrow> nat) \<Rightarrow> ('k::linorder, 'v) InMemoryKVStorage \<Rightarrow> bool" where
  "storageInv h s \<longleftrightarrow>
     stable (keyValueDictionary s) \<and> stable (keyTtlDictionary s) \<and>
     sorted_wrt ComparatorPtrKey (setSortedKeyPtr s) \<and>
     snd ` set (setSortedKeyPtr s) = dom (lookup h (keyValueDictionary s))"

text \<open>What \<^verbatim>\<open>isExpired\<close> answers for a key.\<close>

definition expiredAt :: "('k \<Rightarrow> nat) \<Rightarrow> int \<Rightarrow> ('k, 'v) InMemoryKVStorage \<Rightarrow> 'k \<Rightarrow> bool" where
  "expiredAt h now s k \<longleftrightarrow>
     (case lookup h (keyTtlDictionary s) k of Some t \<Rightarrow> t < now | None \<Rightarrow> False)"

text \<open>
  The entries a scan over the handles \<open>it\<close> is to collect: the keys that \<^verbatim>\<open>isExpired\<close>
  rejects are left out, the others come with their value.
\<close>

fun liveEntries ::
  "('k \<Rightarrow> nat) \<Rightarrow> int \<Rightarrow> ('k, 'v) InMemoryKVStorage \<Rightarrow> 'k shared_ptr list \<Rightarrow> ('k \<times> 'v) list" where
  "liveEntries h now s [] = []"
| "liveEntries h now s (p # it) =
     (if expiredAt h now s (snd p) then liveEntries h now s it
      else case lookup h (keyValueDictionary s) (snd p) of
             None \<Rightarrow> liveEntries h now s it
           | Some v \<Rightarrow> (snd p, v) # liveEntries h now s it)"

text \<open>
  The bucket array after \<open>m\<close> buckets from index \<open>r\<close> on have been emptied by the loop of
  \<^verbatim>\<open>rehash\<close>.
\<close>

definition wipeBuckets ::
  "nat \<Rightarrow> nat \<Rightarrow> ('k, 'v) Bucket list list \<Rightarrow> ('k, 'v) Bucket list list" where
  "wipeBuckets r m xs = take r xs @ replicate m [] @ drop (r + m) xs"

text \<open>
  The helpers of the dictionary tests: \<^verbatim>\<open>FillDictionary\<close> sets the given keys in turn,
  \<^verbatim>\<open>CheckValues\<close> gets them in turn and collects what \<^verbatim>\<open>get\<close> returns.
\<close>

fun FillDictionary ::
  "('k \<Rightarrow> nat) \<Rightarrow> ('k \<times> 'v) list \<Rightarrow> ('k, 'v) Dictionary \<Rightarrow> fault + ('k, 'v) Dictionary" where
  "FillDictionary h [] d = Inr d"
| "FillDictionary h (e # es) d =
     faultBind (dict_set h (fst e) (snd e) d) (FillDictionary h es)"

fun CheckValues ::
  "('k \<Rightarrow> nat) \<Rightarrow> 'k list \<Rightarrow> ('k, 'v) Dictionary \<Rightarrow> fault + 'v option list" where
  "CheckValues h [] d = Inr []"
| "CheckValues h (k # ks) d =
     faultBind (dict_get h k d) (\<lambda>(d1, r).
       faultBind (CheckValues h ks d1) (\<lambda>rs. Inr (r # rs)))"

text \<open>
  Two states for concrete instances.  \<open>expiredEntryStorage\<close> is the storage after
  \<^verbatim>\<open>set("k", "old", 1)\<close> at time \<open>0\<close>, with the handles of that call at the addresses \<open>100\<close> and
  \<open>101\<close>; \<open>oneEntryDictionary\<close> is a dictionary of \<open>101\<close> buckets after \<^verbatim>\<open>set(5, "v")\<close>.
\<close>

definition expiredEntryStorage :: "(string, string) InMemoryKVStorage" where
  "expiredEntryStorage =
     \<lparr> keyValueDictionary =
         \<lparr> dictionary = (replicate 8 [])[1 := [Bucket ''k'' ''old'']], dictionarySize = 8,
           dictionaryUsed = 1, alternativeDictionary = [], alternativeDictionarySize = 0,
           rehashIndex = SIZE_MAX \<rparr>,
       keyTtlDictionary =
         \<lparr> dictionary = (replicate 8 [])[1 := [Bucket ''k'' 1]], dictionarySize = 8,
           dictionaryUsed = 1, alternativeDictionary = [], alternativeDictionarySize = 0,
           rehashIndex = SIZE_MAX \<rparr>,
       setSortedKeyPtr = [(100, ''k'')],
       setSortedTtlPtr = [((100, ''k''), (101, 1))] \<rparr>"

definition oneEntryDictionary :: "(nat, string) Dictionary" where
  "oneEntryDictionary =
     \<lparr> dictionary = (replicate 101 [])[5 := [Bucket 5 ''v'']], dictionarySize = 101,
       dictionaryUsed = 1, alternativeDictionary = [], alternativeDictionarySize = 0,
       rehashIndex = SIZE_MAX \<rparr>"

text \<open>
  Two storages, each with its own hash functor, have the same content when their
  dictionaries map the same keys to the same values and their ordered sets are equal.
\<close>

definition sameContent ::
  "('k \<Rightarrow> nat) \<Rightarrow> ('k \<Rightarrow> nat) \<Rightarrow> ('k, 'v) InMemoryKVStorage \<Rightarrow> ('k, 'v) InMemoryKVStorage
     \<Rightarrow> bool" where
  "sameContent h h' s s' \<longleftrightarrow>
     lookup h (keyValueDictionary s) = lookup h' (keyValueDictionary s') \<and>
     lookup h (keyTtlDictionary s) = lookup h' (keyTtlDictionary s') \<and>
     setSortedKeyPtr s = setSortedKeyPtr s' \<and>
     setSortedTtlPtr s = setSortedTtlPtr s'"

text \<open>The same for the outcomes of two runs: the same fault, or the same time and replies.\<close>

definition sameOutcome ::
  "('k \<Rightarrow> nat) \<Rightarrow> ('k \<Rightarrow> nat)
     \<Rightarrow> fault + ((int \<times> ('k, 'v) InMemoryKVStorage) \<times> 'r)
     \<Rightarrow> fault + ((int \<times> ('k, 'v) InMemoryKVStorage) \<times> 'r) \<Rightarrow> bool" where
  "sameOutcome h h' m m' \<longleftrightarrow>
     (case m of
        Inl e \<Rightarrow> m' = Inl e
      | Inr x \<Rightarrow>
          (case m' of
             Inl e' \<Rightarrow> False
           | Inr x' \<Rightarrow>
               fst (fst x) = fst (fst x') \<and> snd x = snd x' \<and>
               sameContent h h' (snd (fst x)) (snd (fst x'))))"

text \<open>
  The requests that can change what the storage holds for the key \<open>k\<close>: a \<open>set\<close> or a
  \<open>remove\<close> of \<open>k\<close>, and the eviction of an expired entry.
\<close>

fun touches :: "'k \<Rightarrow> ('k, 'v) request \<Rightarrow> bool" where
  "touches k (Set aKey aTtl k' v ttl) \<longleftrightarrow> k' = k"
| "touches k (Remove k') \<longleftrightarrow> k' = k"
| "touches k RemoveOneExpiredEntry \<longleftrightarrow> True"
| "touches k (Get k') \<longleftrightarrow> False"
| "touches k (GetManySorted k' count) \<longleftrightarrow> False"
| "touches k (Advance sec) \<longleftrightarrow> False"

section \<open>Properties\<close>

subsection \<open>The counter of the scan\<close>

lemma unat_ucast_32_64: "unat (ucast (c :: 32 word) :: 64 word) = unat c"
proof -
  have "unat c < 2 ^ 32"
    using unsigned_less [of c] by simp
  then have "unat c < 2 ^ 64"
    by simp
  then show ?thesis
    by (simp add: unsigned_ucast_eq take_bit_nat_eq_self_iff)
qed

lemma less_ucast_iff: "(i :: 64 word) < ucast (c :: 32 word) \<longleftrightarrow> unat i < unat c"
  by (simp add: word_less_nat_alt unat_ucast_32_64)

lemma unat_succ_below_count:
  assumes "(i :: 64 word) < ucast (c :: 32 word)"
  shows "unat (i + 1) = unat i + 1"
proof -
  have "unat c < 2 ^ 32"
    using unsigned_less [of c] by simp
  with assms have "unat i + 1 < 2 ^ 64"
    by (simp add: less_ucast_iff)
  then show ?thesis
    by (simp add: unat_word_ariths)
qed

subsection \<open>Chains and stable dictionaries\<close>


lemma walk_None_iff: "walk k c = None \<longleftrightarrow> k \<notin> key ` set c"
  by (induction c) auto

lemma walk_Some_key: "walk k c = Some b \<Longrightarrow> key b = k"
  by (induction c) (auto split: if_splits)

lemma walk_assignValue:
  "walk k' (assignValue k v c) =
     (if k' = k then (if walk k c = None then None else Some (Bucket k v)) else walk k' c)"
  by (induction c) auto

lemma keys_assignValue: "map key (assignValue k v c) = map key c"
  by (induction c) auto

lemma walk_unlink_other: "k' \<noteq> k \<Longrightarrow> walk k' (unlink k c) = walk k' c"
  by (induction c) auto

lemma walk_unlink_same: "distinct (map key c) \<Longrightarrow> walk k (unlink k c) = None"
  by (induction c) (auto simp: walk_None_iff)

lemma set_unlink: "set (unlink k c) \<subseteq> set c"
  by (induction c) auto

lemma distinct_unlink: "distinct (map key c) \<Longrightarrow> distinct (map key (unlink k c))"
proof (induction c)
  case Nil
  then show ?case by simp
next
  case (Cons b c)
  have "key ` set (unlink k c) \<subseteq> key ` set c"
    using set_unlink [of k c] by blast
  with Cons show ?case by auto
qed

lemma stable_preCommandActions: "stable d \<Longrightarrow> preCommandActions d = Inr d"
  by (simp add: stable_def preCommandActions_def isRehashing_def isNeedRehash_def)

lemma stable_index: "stable d \<Longrightarrow> h k mod dictionarySize d < length (dictionary d)"
  by (simp add: stable_def)

lemma dict_get_stable: "stable d \<Longrightarrow> dict_get h k d = Inr (d, lookup h d k)"
  by (simp add: dict_get_def stable_preCommandActions faultBind_def internal_get_def
      getBucketIndex_def tableOf_def lookup_def stable_index)
    (simp add: stable_def isRehashing_def)


lemma walk_setChain:
  "walk k' (setChain k v c) = (if k' = k then Some (Bucket k v) else walk k' c)"
  by (simp add: setChain_def walk_assignValue)

lemma distinct_setChain: "distinct (map key c) \<Longrightarrow> distinct (map key (setChain k v c))"
  by (auto simp: setChain_def keys_assignValue walk_None_iff)

lemma internal_set_primary:
  assumes "0 < n" "h k mod n < length (dictionary d)"
  shows "internal_set h k v Primary n d =
           Inr (d\<lparr>dictionary :=
                   (dictionary d)[h k mod n := setChain k v (dictionary d ! (h k mod n))],
                 dictionaryUsed :=
                   (if walk k (dictionary d ! (h k mod n)) \<noteq> None
                    then dictionaryUsed d else dictionaryUsed d + 1)\<rparr>)"
  using assms
  by (simp add: internal_set_def getBucketIndex_def faultBind_def tableOf_def
      storeTable_def setChain_def Let_def)

lemma stable_update:
  assumes "stable d" "distinct (map key c)" "i < dictionarySize d"
  shows "stable (d\<lparr>dictionary := (dictionary d)[i := c], dictionaryUsed := u\<rparr>)"
proof -
  have "set ((dictionary d)[i := c]) \<subseteq> insert c (set (dictionary d))"
    by (rule set_update_subset_insert)
  with assms show ?thesis
    by (auto simp: stable_def)
qed

lemma lookup_update:
  assumes "i < length (dictionary d)"
  shows "lookup h (d\<lparr>dictionary := (dictionary d)[i := c], dictionaryUsed := u\<rparr>) k =
           (if h k mod dictionarySize d = i then map_option val (walk k c) else lookup h d k)"
  using assms by (simp add: lookup_def)

lemma dict_set_stable:
  assumes "stable d"
  shows "\<exists>d'. dict_set h k v d = Inr d' \<and> stable d' \<and>
           (\<forall>k'. lookup h d' k' = (if k' = k then Some v else lookup h d k'))"
proof -
  let ?i = "h k mod dictionarySize d"
  let ?c = "dictionary d ! ?i"
  from assms have n: "0 < dictionarySize d" and len: "length (dictionary d) = dictionarySize d"
    by (simp_all add: stable_def)
  then have i: "?i < length (dictionary d)" by simp
  define u where "u = (if walk k ?c \<noteq> None then dictionaryUsed d else dictionaryUsed d + 1)"
  have eq: "internal_set h k v Primary (dictionarySize d) d =
           Inr (d\<lparr>dictionary := (dictionary d)[?i := setChain k v ?c], dictionaryUsed := u\<rparr>)"
    unfolding u_def using n i by (rule internal_set_primary)
  let ?d' = "d\<lparr>dictionary := (dictionary d)[?i := setChain k v ?c], dictionaryUsed := u\<rparr>"
  from assms i have "distinct (map key ?c)"
    by (simp add: stable_def)
  then have "distinct (map key (setChain k v ?c))"
    by (rule distinct_setChain)
  with assms i len have st: "stable ?d'"
    by (intro stable_update) simp_all
  have run: "dict_set h k v d = Inr ?d'"
    using assms eq
    by (simp add: dict_set_def stable_preCommandActions faultBind_def isRehashing_def stable_def)
  have "lookup h ?d' k' = (if k' = k then Some v else lookup h d k')" for k'
    using i by (simp add: lookup_update walk_setChain) (simp add: lookup_def)
  with run st show ?thesis by blast
qed

lemma internal_remove_primary:
  assumes "0 < n" "h k mod n < length (dictionary d)"
  shows "internal_remove h k Primary n d =
           (if walk k (dictionary d ! (h k mod n)) = None then Inr (d, False)
            else Inr (d\<lparr>dictionary :=
                         (dictionary d)[h k mod n := unlink k (dictionary d ! (h k mod n))],
                       dictionaryUsed := dictionaryUsed d - 1\<rparr>, True))"
  using assms
  by (simp add: internal_remove_def getBucketIndex_def faultBind_def tableOf_def
      storeTable_def Let_def)

lemma dict_remove_absent:
  assumes "stable d" "lookup h d k = None"
  shows "dict_remove h k d = Inr (d, False)"
proof -
  from assms(1) have n: "0 < dictionarySize d"
    and i: "h k mod dictionarySize d < length (dictionary d)"
    by (simp_all add: stable_def)
  from assms(2) have "walk k (dictionary d ! (h k mod dictionarySize d)) = None"
    by (simp add: lookup_def)
  moreover note internal_remove_primary [of "dictionarySize d" h k d, OF n i]
  ultimately show ?thesis
    using assms(1)
    by (simp add: dict_remove_def stable_preCommandActions faultBind_def isRehashing_def
        stable_def)
qed

lemma dict_remove_present:
  assumes "stable d" "lookup h d k \<noteq> None"
  shows "\<exists>d'. dict_remove h k d = Inr (d', True) \<and> stable d' \<and>
           (\<forall>k'. lookup h d' k' = (if k' = k then None else lookup h d k'))"
proof -
  let ?i = "h k mod dictionarySize d"
  let ?c = "dictionary d ! ?i"
  let ?d' = "d\<lparr>dictionary := (dictionary d)[?i := unlink k ?c],
               dictionaryUsed := dictionaryUsed d - 1\<rparr>"
  from assms(1) have n: "0 < dictionarySize d"
    and len: "length (dictionary d) = dictionarySize d"
    by (simp_all add: stable_def)
  then have i: "?i < length (dictionary d)" by simp
  from assms(2) have w: "walk k ?c \<noteq> None"
    by (simp add: lookup_def)
  from assms(1) i have dist: "distinct (map key ?c)"
    by (simp add: stable_def)
  have run: "dict_remove h k d = Inr (?d', True)"
    using assms(1) w internal_remove_primary [of "dictionarySize d" h k d, OF n i]
    by (simp add: dict_remove_def stable_preCommandActions faultBind_def isRehashing_def
        stable_def)
  from dist have "distinct (map key (unlink k ?c))"
    by (rule distinct_unlink)
  with assms(1) i len have st: "stable ?d'"
    by (intro stable_update) simp_all
  have "lookup h ?d' k' = (if k' = k then None else lookup h d k')" for k'
    using i dist
    by (simp add: lookup_update walk_unlink_same walk_unlink_other) (simp add: lookup_def)
  with run st show ?thesis by blast
qed

lemma stable_newDictionary: "stable (newDictionary BASIC_DICTIONARY_SIZE)"
  by (simp add: stable_def newDictionary_def BASIC_DICTIONARY_SIZE_def)

lemma lookup_newDictionary: "0 < n \<Longrightarrow> lookup h (newDictionary n) k = None"
  by (simp add: lookup_def newDictionary_def)

subsection \<open>The ordered sets\<close>

lemma set_std_set_insert_subset: "set (std_set_insert cmp x xs) \<subseteq> insert x (set xs)"
  by (induction xs) auto

lemma set_std_set_insert_supset: "set xs \<subseteq> set (std_set_insert cmp x xs)"
  by (induction xs) auto

lemma keys_std_set_insert:
  "snd ` set (std_set_insert ComparatorPtrKey p xs) = insert (snd p) (snd ` set xs)"
  by (induction xs) (auto simp: ComparatorPtrKey_def)

lemma sorted_std_set_insert:
  "sorted_wrt ComparatorPtrKey xs \<Longrightarrow>
     sorted_wrt ComparatorPtrKey (std_set_insert ComparatorPtrKey p xs)"
proof (induction xs)
  case Nil
  then show ?case by simp
next
  case (Cons y ys)
  from Cons.prems have ys: "sorted_wrt ComparatorPtrKey ys"
    and y: "\<forall>z \<in> set ys. ComparatorPtrKey y z"
    by simp_all
  show ?case
  proof (cases "ComparatorPtrKey p y")
    case True
    with y have "\<forall>z \<in> set ys. ComparatorPtrKey p z"
      by (auto simp: ComparatorPtrKey_def)
    with True Cons.prems show ?thesis by simp
  next
    case False
    show ?thesis
    proof (cases "ComparatorPtrKey y p")
      case True
      have "set (std_set_insert ComparatorPtrKey p ys) \<subseteq> insert p (set ys)"
        by (rule set_std_set_insert_subset)
      with True y have "\<forall>z \<in> set (std_set_insert ComparatorPtrKey p ys). ComparatorPtrKey y z"
        by auto
      with True False Cons.IH [OF ys] show ?thesis by simp
    next
      case nl: False
      with False Cons.prems show ?thesis by simp
    qed
  qed
qed

lemma set_eraseFirst_subset: "set (eraseFirst P xs) \<subseteq> set xs"
  by (induction xs) auto

lemma sorted_eraseFirst: "sorted_wrt cmp xs \<Longrightarrow> sorted_wrt cmp (eraseFirst P xs)"
proof (induction xs)
  case Nil
  then show ?case by simp
next
  case (Cons y ys)
  have "set (eraseFirst P ys) \<subseteq> set ys"
    by (rule set_eraseFirst_subset)
  with Cons show ?case by auto
qed

lemma equivalentKey_iff: "equivalentKey k p \<longleftrightarrow> snd p = k"
  by (auto simp: equivalentKey_def)

lemma keys_eraseFirst:
  "sorted_wrt ComparatorPtrKey xs \<Longrightarrow>
     snd ` set (eraseFirst (equivalentKey k) xs) = snd ` set xs - {k}"
proof (induction xs)
  case Nil
  then show ?case by simp
next
  case (Cons y ys)
  show ?case
  proof (cases "snd y = k")
    case True
    from Cons.prems have "\<forall>z \<in> set ys. ComparatorPtrKey y z"
      by simp
    then have "\<forall>z \<in> set ys. snd y < snd z"
      by (simp add: ComparatorPtrKey_def)
    then have "k \<notin> snd ` set ys"
      using True by auto
    with True show ?thesis
      by (simp add: equivalentKey_iff)
  next
    case False
    with Cons show ?thesis
      by (auto simp: equivalentKey_iff)
  qed
qed

subsection \<open>The operations of the storage on a state that satisfies the invariant\<close>

lemma dict_remove_stable:
  assumes "stable d"
  shows "\<exists>d'. dict_remove h k d = Inr (d', lookup h d k \<noteq> None) \<and> stable d' \<and>
           (\<forall>k'. lookup h d' k' = (if k' = k then None else lookup h d k'))"
proof (cases "lookup h d k = None")
  case True
  with assms dict_remove_absent [OF assms True] show ?thesis by auto
next
  case False
  with dict_remove_present [OF assms False] show ?thesis by simp
qed

lemma isExist_inv:
  "storageInv h s \<Longrightarrow> isExist h k s = Inr (s, lookup h (keyValueDictionary s) k \<noteq> None)"
  by (simp add: isExist_def storageInv_def dict_get_stable faultBind_def)

lemma isExpired_inv: "storageInv h s \<Longrightarrow> isExpired h now k s = Inr (s, expiredAt h now s k)"
  by (simp add: isExpired_def storageInv_def dict_get_stable faultBind_def expiredAt_def)

lemma kv_get_inv:
  assumes "storageInv h s"
  shows "kv_get h now k s =
           Inr (s, if expiredAt h now s k then None else lookup h (keyValueDictionary s) k)"
proof -
  from assms have "stable (keyValueDictionary s)"
    by (simp add: storageInv_def)
  then have "dict_get h k (keyValueDictionary s) =
               Inr (keyValueDictionary s, lookup h (keyValueDictionary s) k)"
    by (rule dict_get_stable)
  with assms show ?thesis
    by (auto simp: kv_get_def isExist_inv isExpired_inv faultBind_def)
qed

lemma kv_set_inv:
  assumes "storageInv h s"
  shows "\<exists>s'. kv_set h now aKey aTtl k v ttl s = Inr s' \<and> storageInv h s' \<and>
           (\<forall>k'. lookup h (keyValueDictionary s') k' =
                   (if k' = k then Some v else lookup h (keyValueDictionary s) k')) \<and>
           (\<forall>k'. lookup h (keyTtlDictionary s') k' =
                   (if k' = k \<and> ttl \<noteq> 0 then Some (intWrap (ttl + now))
                    else lookup h (keyTtlDictionary s) k')) \<and>
           setSortedKeyPtr s' = std_set_insert ComparatorPtrKey (aKey, k) (setSortedKeyPtr s) \<and>
           setSortedTtlPtr s' =
             (if ttl \<noteq> 0
              then std_set_insert pairLess ((aKey, k), (aTtl, intWrap (ttl + now))) (setSortedTtlPtr s)
              else setSortedTtlPtr s)"
proof -
  from assms have skv: "stable (keyValueDictionary s)" and sttl: "stable (keyTtlDictionary s)"
    and sorted: "sorted_wrt ComparatorPtrKey (setSortedKeyPtr s)"
    and keys: "snd ` set (setSortedKeyPtr s) = dom (lookup h (keyValueDictionary s))"
    by (simp_all add: storageInv_def)
  from dict_set_stable [OF skv] obtain kv where
    kv: "dict_set h k v (keyValueDictionary s) = Inr kv" "stable kv"
      "\<And>k'. lookup h kv k' = (if k' = k then Some v else lookup h (keyValueDictionary s) k')"
    by blast
  let ?keys = "std_set_insert ComparatorPtrKey (aKey, k) (setSortedKeyPtr s)"
  have sorted': "sorted_wrt ComparatorPtrKey ?keys"
    using sorted by (rule sorted_std_set_insert)
  have "dom (lookup h kv) = insert k (dom (lookup h (keyValueDictionary s)))"
    by (auto simp: kv(3) dom_def)
  with keys have keys': "snd ` set ?keys = dom (lookup h kv)"
    by (simp add: keys_std_set_insert)
  show ?thesis
  proof (cases "ttl = 0")
    case True
    let ?s' = "s\<lparr>keyValueDictionary := kv, setSortedKeyPtr := ?keys\<rparr>"
    have "kv_set h now aKey aTtl k v ttl s = Inr ?s'"
      using True kv(1) by (simp add: kv_set_def faultBind_def Let_def)
    moreover have "storageInv h ?s'"
      using kv(2) sttl sorted' keys' by (simp add: storageInv_def)
    ultimately show ?thesis
      using True kv(3) by simp
  next
    case False
    from dict_set_stable [OF sttl] obtain kt where
      kt: "dict_set h k (intWrap (ttl + now)) (keyTtlDictionary s) = Inr kt" "stable kt"
        "\<And>k'. lookup h kt k' =
               (if k' = k then Some (intWrap (ttl + now)) else lookup h (keyTtlDictionary s) k')"
      by blast
    let ?s' = "s\<lparr>keyValueDictionary := kv, setSortedKeyPtr := ?keys, keyTtlDictionary := kt,
                 setSortedTtlPtr :=
                   std_set_insert pairLess ((aKey, k), (aTtl, intWrap (ttl + now))) (setSortedTtlPtr s)\<rparr>"
    have "kv_set h now aKey aTtl k v ttl s = Inr ?s'"
      using False kv(1) kt(1) by (simp add: kv_set_def faultBind_def Let_def)
    moreover have "storageInv h ?s'"
      using kv(2) kt(2) sorted' keys' by (simp add: storageInv_def)
    ultimately show ?thesis
      using False kv(3) kt(3) by simp
  qed
qed

lemma kv_remove_absent:
  assumes "storageInv h s" "lookup h (keyValueDictionary s) k = None"
  shows "kv_remove h k s = Inr (s, False)"
  using assms by (simp add: kv_remove_def isExist_inv faultBind_def)

lemma kv_remove_present:
  assumes "storageInv h s" "lookup h (keyValueDictionary s) k \<noteq> None"
  shows "\<exists>s'. kv_remove h k s = Inr (s', True) \<and> storageInv h s' \<and>
           (\<forall>k'. lookup h (keyValueDictionary s') k' =
                   (if k' = k then None else lookup h (keyValueDictionary s) k')) \<and>
           (\<forall>k'. lookup h (keyTtlDictionary s') k' =
                   (if k' = k then None else lookup h (keyTtlDictionary s) k')) \<and>
           setSortedKeyPtr s' = eraseFirst (equivalentKey k) (setSortedKeyPtr s) \<and>
           setSortedTtlPtr s' = eraseFirst (\<lambda>pair. snd (fst pair) = k) (setSortedTtlPtr s)"
proof -
  from assms(1) have skv: "stable (keyValueDictionary s)" and sttl: "stable (keyTtlDictionary s)"
    and sorted: "sorted_wrt ComparatorPtrKey (setSortedKeyPtr s)"
    and keys: "snd ` set (setSortedKeyPtr s) = dom (lookup h (keyValueDictionary s))"
    by (simp_all add: storageInv_def)
  from dict_remove_present [OF skv assms(2)] obtain kv where
    kv: "dict_remove h k (keyValueDictionary s) = Inr (kv, True)" "stable kv"
      "\<And>k'. lookup h kv k' = (if k' = k then None else lookup h (keyValueDictionary s) k')"
    by blast
  from dict_remove_stable [OF sttl] obtain kt where
    kt: "dict_remove h k (keyTtlDictionary s) = Inr (kt, lookup h (keyTtlDictionary s) k \<noteq> None)"
      "stable kt"
      "\<And>k'. lookup h kt k' = (if k' = k then None else lookup h (keyTtlDictionary s) k')"
    by blast
  let ?keys = "eraseFirst (equivalentKey k) (setSortedKeyPtr s)"
  let ?s' = "s\<lparr>keyValueDictionary := kv, setSortedKeyPtr := ?keys, keyTtlDictionary := kt,
               setSortedTtlPtr := eraseFirst (\<lambda>pair. snd (fst pair) = k) (setSortedTtlPtr s)\<rparr>"
  have sorted': "sorted_wrt ComparatorPtrKey ?keys"
    using sorted by (rule sorted_eraseFirst)
  have "dom (lookup h kv) = dom (lookup h (keyValueDictionary s)) - {k}"
    by (auto simp: kv(3) dom_def)
  with keys have keys': "snd ` set ?keys = dom (lookup h kv)"
    by (simp add: keys_eraseFirst [OF sorted])
  have get: "dict_get h k (keyValueDictionary s) =
               Inr (keyValueDictionary s, lookup h (keyValueDictionary s) k)"
    using skv by (rule dict_get_stable)
  have "kv_remove h k s = Inr (?s', True)"
    using assms kv(1) kt(1) get
    by (auto simp: kv_remove_def isExist_inv faultBind_def Let_def)
  moreover have "storageInv h ?s'"
    using kv(2) kt(2) sorted' keys' by (simp add: storageInv_def)
  ultimately show ?thesis
    using kv(3) kt(3) by simp
qed

lemma getManySortedLoop_inv:
  assumes "storageInv h s" "snd ` set it \<subseteq> dom (lookup h (keyValueDictionary s))"
  shows "getManySortedLoop h now count i it result s =
           Inr (s, result @ take (unat count - unat i) (liveEntries h now s it))"
  using assms(2)
proof (induction it arbitrary: i result)
  case Nil
  then show ?case by simp
next
  case (Cons p it)
  from Cons.prems have rest: "snd ` set it \<subseteq> dom (lookup h (keyValueDictionary s))"
    by simp
  from Cons.prems obtain v where v: "lookup h (keyValueDictionary s) (snd p) = Some v"
    by auto
  show ?case
  proof (cases "i < ucast count")
    case False
    then have "unat count - unat i = 0"
      by (simp add: less_ucast_iff)
    with False show ?thesis by simp
  next
    case True
    then have pos: "unat count - unat i = Suc (unat count - unat (i + 1))"
      by (simp add: less_ucast_iff unat_succ_below_count)
    show ?thesis
    proof (cases "expiredAt h now s (snd p)")
      case expired: True
      with True Cons.IH [OF rest] show ?thesis
        by (simp add: isExpired_inv [OF assms(1)] faultBind_def)
    next
      case live: False
      with True v pos Cons.IH [OF rest] show ?thesis
        by (simp add: isExpired_inv [OF assms(1)] kv_get_inv [OF assms(1)] faultBind_def)
    qed
  qed
qed

lemma set_lower_bound_subset: "set (lower_bound k xs) \<subseteq> set xs"
  unfolding lower_bound_def by (rule set_dropWhileD [THEN subsetI])

lemma getManySorted_inv:
  assumes "storageInv h s"
  shows "getManySorted h now k count s =
           Inr (s, take (unat count) (liveEntries h now s (lower_bound k (setSortedKeyPtr s))))"
proof -
  from assms have "snd ` set (setSortedKeyPtr s) = dom (lookup h (keyValueDictionary s))"
    by (simp add: storageInv_def)
  with set_lower_bound_subset [of k "setSortedKeyPtr s"]
  have "snd ` set (lower_bound k (setSortedKeyPtr s)) \<subseteq> dom (lookup h (keyValueDictionary s))"
    by blast
  from getManySortedLoop_inv [OF assms this, of now count 0 "[]"] show ?thesis
    by (simp add: getManySorted_def)
qed

lemma removeOneExpiredEntry_inv:
  assumes "storageInv h s" "removeOneExpiredEntry h now s = Inr (s', r)"
  shows "storageInv h s'"
proof (cases "setSortedTtlPtr s")
  case Nil
  with assms show ?thesis
    by (simp add: removeOneExpiredEntry_def)
next
  case (Cons e rest)
  from assms(1) have get: "dict_get h k (keyValueDictionary s) =
      Inr (keyValueDictionary s, lookup h (keyValueDictionary s) k)" for k
    by (simp add: storageInv_def dict_get_stable)
  show ?thesis
  proof (cases "snd (snd e) < now")
    case False
    with Cons assms show ?thesis
      by (simp add: removeOneExpiredEntry_def)
  next
    case True
    show ?thesis
    proof (cases "lookup h (keyValueDictionary s) (snd (fst e))")
      case None
      with True Cons assms(2) get show ?thesis
        by (simp add: removeOneExpiredEntry_def faultBind_def Let_def)
    next
      case (Some v)
      then have "lookup h (keyValueDictionary s) (snd (fst e)) \<noteq> None"
        by simp
      from kv_remove_present [OF assms(1) this] obtain s1 where
        s1: "kv_remove h (snd (fst e)) s = Inr (s1, True)" "storageInv h s1"
        by blast
      with True Cons Some assms(2) get show ?thesis
        by (auto simp: removeOneExpiredEntry_def faultBind_def Let_def)
    qed
  qed
qed

subsection \<open>Reachable states satisfy the invariant\<close>

lemma storageInv_newStorage: "storageInv h newStorage"
proof -
  have "dom (lookup h (newDictionary BASIC_DICTIONARY_SIZE :: ('a, 'b) Dictionary)) = {}"
    by (auto simp: lookup_newDictionary BASIC_DICTIONARY_SIZE_def)
  then show ?thesis
    by (simp add: storageInv_def newStorage_def stable_newDictionary)
qed

lemma kv_remove_storageInv:
  assumes "storageInv h s" "kv_remove h k s = Inr (s', r)"
  shows "storageInv h s'"
proof (cases "lookup h (keyValueDictionary s) k = None")
  case True
  with assms show ?thesis
    by (simp add: kv_remove_absent)
next
  case False
  from kv_remove_present [OF assms(1) False] assms(2) show ?thesis
    by auto
qed

lemma call_storageInv:
  assumes "storageInv h s" "call h c (now, s) = Inr ((now', s'), r)"
  shows "storageInv h s'"
proof (cases c)
  case (Set aKey aTtl k v ttl)
  from kv_set_inv [OF assms(1), of now aKey aTtl k v ttl] assms(2) Set show ?thesis
    by (auto simp: faultBind_def)
next
  case (Remove k)
  with assms(2) obtain r' where "kv_remove h k s = Inr (s', r')"
    by (auto simp: faultBind_def split: sum.splits)
  with assms(1) show ?thesis
    by (rule kv_remove_storageInv)
next
  case (Get k)
  with assms show ?thesis
    by (auto simp: kv_get_inv faultBind_def)
next
  case (GetManySorted k count)
  with assms show ?thesis
    by (auto simp: getManySorted_inv faultBind_def)
next
  case RemoveOneExpiredEntry
  with assms(2) obtain r' where "removeOneExpiredEntry h now s = Inr (s', r')"
    by (auto simp: faultBind_def split: sum.splits)
  with assms(1) show ?thesis
    by (rule removeOneExpiredEntry_inv)
next
  case (Advance sec)
  with assms show ?thesis by simp
qed

lemma run_storageInv:
  "storageInv h s \<Longrightarrow> run h cs (now, s) = Inr ((now', s'), rs) \<Longrightarrow> storageInv h s'"
proof (induction cs arbitrary: now s rs)
  case Nil
  then show ?case by simp
next
  case (Cons c cs)
  from Cons.prems(2) obtain now1 s1 r rs1 where
    c: "call h c (now, s) = Inr ((now1, s1), r)" and
    cs: "run h cs (now1, s1) = Inr ((now', s'), rs1)"
    by (auto simp: faultBind_def split: sum.splits)
  from Cons.prems(1) c have "storageInv h s1"
    by (rule call_storageInv)
  then show ?case
    using cs by (rule Cons.IH)
qed

lemma reachable_storageInv: "reachable h s \<Longrightarrow> storageInv h s"
  unfolding reachable_def using run_storageInv [OF storageInv_newStorage] by blast

lemma reachable_newStorage: "reachable h newStorage"
proof -
  have "run h [] (0, newStorage) = Inr ((0, newStorage), [])"
    by simp
  then show ?thesis
    unfolding reachable_def by blast
qed

lemma key_set_is_value_index:
  "reachable h s \<Longrightarrow> snd ` set (setSortedKeyPtr s) = dom (lookup h (keyValueDictionary s))"
  by (drule reachable_storageInv) (simp add: storageInv_def)

lemma remove_absent_key:
  assumes "reachable h s" "lookup h (keyValueDictionary s) k = None"
  shows "kv_remove h k s = Inr (s, False)"
  using assms by (simp add: kv_remove_absent reachable_storageInv)

lemma remove_twice:
  assumes "reachable h s" "kv_remove h k s = Inr (s', True)"
  shows "kv_remove h k s' = Inr (s', False)"
proof -
  from assms(1) have inv: "storageInv h s"
    by (rule reachable_storageInv)
  from assms(2) kv_remove_absent [OF inv, of k]
  have present: "lookup h (keyValueDictionary s) k \<noteq> None"
    by auto
  from kv_remove_present [OF inv present] assms(2)
  have "storageInv h s'" "lookup h (keyValueDictionary s') k = None"
    by auto
  then show ?thesis
    by (rule kv_remove_absent)
qed

subsection \<open>The rehash\<close>

lemma wipeBuckets_zero: "wipeBuckets r 0 xs = xs"
  by (simp add: wipeBuckets_def)

lemma wipeBuckets_step:
  assumes "r < length xs"
  shows "wipeBuckets (Suc r) m (xs[r := []]) = wipeBuckets r (Suc m) xs"
proof -
  have "take (Suc r) (xs[r := []]) = take r xs @ [[]]"
    using assms by (simp add: take_Suc_conv_app_nth)
  moreover have "drop (Suc r + m) (xs[r := []]) = drop (Suc r + m) xs"
    by (rule drop_update_cancel) simp
  ultimately show ?thesis
    by (simp add: wipeBuckets_def replicate_app_Cons_same)
qed

lemma length_wipeBuckets: "r + m \<le> length xs \<Longrightarrow> length (wipeBuckets r m xs) = length xs"
  by (simp add: wipeBuckets_def)

lemma nth_wipeBuckets:
  assumes "r + m \<le> length xs" "j < length xs"
  shows "wipeBuckets r m xs ! j = (if r \<le> j \<and> j < r + m then [] else xs ! j)"
proof -
  from assms have lt: "length (take r xs) = r"
    by simp
  consider "j < r" | "r \<le> j" "j < r + m" | "r + m \<le> j"
    by linarith
  then show ?thesis
  proof cases
    case 1
    with assms show ?thesis
      by (simp add: wipeBuckets_def nth_append)
  next
    case 2
    then have "j - r < m"
      by linarith
    with 2 assms show ?thesis
      by (simp add: wipeBuckets_def nth_append)
  next
    case 3
    then have a: "\<not> j < r" and b: "\<not> j - r < m" and c: "r + m + (j - r - m) = j"
      by linarith+
    have "wipeBuckets r m xs ! j = (replicate m [] @ drop (r + m) xs) ! (j - r)"
      unfolding wipeBuckets_def using a lt by (simp add: nth_append)
    also have "\<dots> = drop (r + m) xs ! (j - r - m)"
      using b by (simp add: nth_append)
    also have "\<dots> = xs ! (r + m + (j - r - m))"
      using assms by (intro nth_drop) simp
    finally show ?thesis
      using 3 c by simp
  qed
qed

lemma rehashLoop_result:
  assumes "dictionarySize d \<le> length (dictionary d)"
  shows "rehashLoop i d =
           Inr (d\<lparr>dictionary :=
                   wipeBuckets (rehashIndex d)
                     (min (DICTIONARY_REHASH_BUCKET_COUNT - i) (dictionarySize d - rehashIndex d))
                     (dictionary d),
                 rehashIndex :=
                   rehashIndex d +
                   min (DICTIONARY_REHASH_BUCKET_COUNT - i) (dictionarySize d - rehashIndex d)\<rparr>)"
  using assms
proof (induction i d rule: rehashLoop.induct)
  case (1 i d)
  let ?r = "rehashIndex d"
  let ?xs = "dictionary d"
  show ?case
  proof (cases "i < DICTIONARY_REHASH_BUCKET_COUNT \<and> ?r < dictionarySize d")
    case False
    then have "min (DICTIONARY_REHASH_BUCKET_COUNT - i) (dictionarySize d - ?r) = 0"
      by auto
    moreover from False have "rehashLoop i d = Inr d"
      by (subst rehashLoop.simps) (simp only: if_False)
    ultimately show ?thesis
      by (simp add: wipeBuckets_zero del: rehashLoop.simps)
  next
    case True
    with "1.prems" have r: "?r < length ?xs"
      by simp
    let ?m = "min (DICTIONARY_REHASH_BUCKET_COUNT - (i + 1)) (dictionarySize d - (?r + 1))"
    from True have m: "min (DICTIONARY_REHASH_BUCKET_COUNT - i) (dictionarySize d - ?r) = Suc ?m"
      by auto
    have wipe: "wipeBuckets (Suc ?r) ?m (?xs[?r := []]) = wipeBuckets ?r (Suc ?m) ?xs"
      using r by (rule wipeBuckets_step)
    show ?thesis
    proof (cases "?xs ! ?r = []")
      case empty: True
      then have same: "?xs[?r := []] = ?xs"
        by (metis list_update_id)
      have step: "rehashLoop i d = rehashLoop (i + 1) (d\<lparr>rehashIndex := ?r + 1\<rparr>)"
        using True r empty by (subst rehashLoop.simps) (simp only: simp_thms if_True if_False)
      have "dictionarySize (d\<lparr>rehashIndex := ?r + 1\<rparr>)
              \<le> length (dictionary (d\<lparr>rehashIndex := ?r + 1\<rparr>))"
        using "1.prems" by simp
      from "1.IH"(1) [OF True _ empty this] r
      have "rehashLoop (i + 1) (d\<lparr>rehashIndex := ?r + 1\<rparr>) =
              Inr (d\<lparr>dictionary := wipeBuckets (Suc ?r) ?m ?xs, rehashIndex := Suc ?r + ?m\<rparr>)"
        by (simp del: rehashLoop.simps)
      with step wipe m same show ?thesis
        by (simp del: rehashLoop.simps)
    next
      case nonempty: False
      let ?d1 = "d\<lparr>dictionary := ?xs[?r := []], rehashIndex := ?r + 1\<rparr>"
      have step: "rehashLoop i d = rehashLoop (i + 1) ?d1"
        using True r nonempty
        by (subst rehashLoop.simps) (simp only: simp_thms if_True if_False)
      have "dictionarySize ?d1 \<le> length (dictionary ?d1)"
        using "1.prems" by simp
      from "1.IH"(2) [OF True _ nonempty this] r
      have "rehashLoop (i + 1) ?d1 =
              Inr (d\<lparr>dictionary := wipeBuckets (Suc ?r) ?m (?xs[?r := []]),
                     rehashIndex := Suc ?r + ?m\<rparr>)"
        by (simp del: rehashLoop.simps)
      with step wipe m show ?thesis
        by (simp del: rehashLoop.simps)
    qed
  qed
qed

lemma growth_rehash_empties_dictionary:
  assumes "\<not> isRehashing d" "length (dictionary d) = dictionarySize d"
    and "dictionarySize d \<le> DICTIONARY_REHASH_BUCKET_COUNT"
    and "isNeedRehash d" "\<not> fillFactor d < DICTIONARY_LOW_LIMIT_REHASH"
  shows "dict_get h k d =
           Inr (d\<lparr>alternativeDictionarySize := dictionarySize d * 2,
                  dictionary := replicate (dictionarySize d * 2) [],
                  alternativeDictionary := [], rehashIndex := SIZE_MAX\<rparr>, None)"
proof -
  let ?p = "prepareRehash d"
  from assms(4) have big: "8 < dictionarySize d"
    by (simp add: isNeedRehash_def BASIC_DICTIONARY_SIZE_def)
  have p: "?p = d\<lparr>alternativeDictionarySize := dictionarySize d * 2,
                   alternativeDictionary := replicate (dictionarySize d * 2) [],
                   rehashIndex := 0\<rparr>"
    using assms(5) by (simp add: prepareRehash_def Let_def)
  have "dictionarySize ?p \<le> length (dictionary ?p)"
    using assms(2) by (simp add: p)
  from rehashLoop_result [OF this, of 0] assms(2,3)
  have loop: "rehashLoop 0 ?p =
      Inr (?p\<lparr>dictionary := replicate (dictionarySize d) [],
               rehashIndex := dictionarySize d\<rparr>)"
    by (simp add: p wipeBuckets_def min_absorb2 del: rehashLoop.simps)
  have pre: "preCommandActions d =
      Inr (d\<lparr>alternativeDictionarySize := dictionarySize d * 2,
             dictionary := replicate (dictionarySize d * 2) [],
             alternativeDictionary := [], rehashIndex := SIZE_MAX\<rparr>)"
    using assms(1,4) loop
    by (simp add: preCommandActions_def rehash_def faultBind_def p del: rehashLoop.simps)
  from big have "h k mod dictionarySize d < dictionarySize d * 2"
    by (simp add: less_le_trans [OF mod_less_divisor])
  with big show ?thesis
    by (simp add: dict_get_def pre faultBind_def isRehashing_def internal_get_def
        getBucketIndex_def tableOf_def)
qed

subsection \<open>A dictionary of the basic size never rehashes\<close>

lemma FillDictionary_stable:
  assumes "stable d"
  shows "\<exists>d'. FillDictionary h es d = Inr d' \<and> stable d' \<and>
           (\<forall>k. lookup h d' k =
                  (case map_of (rev es) k of Some v \<Rightarrow> Some v | None \<Rightarrow> lookup h d k))"
  using assms
proof (induction es arbitrary: d)
  case Nil
  then show ?case by simp
next
  case (Cons e es)
  from dict_set_stable [OF Cons.prems, of h "fst e" "snd e"] obtain d1 where
    d1: "dict_set h (fst e) (snd e) d = Inr d1" "stable d1"
      "\<And>k'. lookup h d1 k' = (if k' = fst e then Some (snd e) else lookup h d k')"
    by blast
  from Cons.IH [OF d1(2)] obtain d' where
    d': "FillDictionary h es d1 = Inr d'" "stable d'"
      "\<And>k. lookup h d' k =
             (case map_of (rev es) k of Some v \<Rightarrow> Some v | None \<Rightarrow> lookup h d1 k)"
    by blast
  have "lookup h d' k =
          (case map_of (rev (e # es)) k of Some v \<Rightarrow> Some v | None \<Rightarrow> lookup h d k)" for k
    by (cases e) (auto simp: d'(3) d1(3) map_add_def split: option.splits)
  with d1(1) d'(1,2) show ?case
    by (auto simp: faultBind_def)
qed

lemma CheckValues_stable: "stable d \<Longrightarrow> CheckValues h ks d = Inr (map (lookup h d) ks)"
  by (induction ks) (simp_all add: dict_get_stable faultBind_def)

lemma map_of_rev_distinct:
  assumes "distinct (map fst es)" "(k, v) \<in> set es"
  shows "map_of (rev es) k = Some v"
proof -
  from assms(1) have "distinct (map fst (rev es))"
    by (simp add: rev_map [symmetric])
  moreover from assms(2) have "(k, v) \<in> set (rev es)"
    by simp
  ultimately show ?thesis
    by (rule map_of_is_SomeI)
qed

lemma basic_size_keeps_every_key:
  assumes "distinct (map fst es)"
  shows "faultBind (FillDictionary h es (newDictionary BASIC_DICTIONARY_SIZE))
           (CheckValues h (map fst es)) =
         Inr (map (\<lambda>e. Some (snd e)) es)"
proof -
  from FillDictionary_stable [OF stable_newDictionary, of h es] obtain d' where
    d': "FillDictionary h es (newDictionary BASIC_DICTIONARY_SIZE) = Inr d'" "stable d'"
      "\<And>k. lookup h d' k =
             (case map_of (rev es) k of
                Some v \<Rightarrow> Some v
              | None \<Rightarrow> lookup h (newDictionary BASIC_DICTIONARY_SIZE) k)"
    by blast
  have "lookup h d' (fst e) = Some (snd e)" if "e \<in> set es" for e
  proof -
    from that have "(fst e, snd e) \<in> set es"
      by simp
    with assms have "map_of (rev es) (fst e) = Some (snd e)"
      by (rule map_of_rev_distinct)
    then show ?thesis
      by (simp add: d'(3))
  qed
  then have "map (lookup h d') (map fst es) = map (\<lambda>e. Some (snd e)) es"
    by simp
  with d'(1,2) show ?thesis
    by (simp add: faultBind_def CheckValues_stable)
qed

subsection \<open>The fill factor\<close>

text \<open>
  Rounding moves a number by at most half a unit in the last place, and leaves a number with
  \<open>53\<close> significant bits where it is.
\<close>

lemma roundEven_error: "\<bar>of_int (roundEven x) - x\<bar> \<le> 1 / 2"
proof -
  have f: "of_int \<lfloor>x\<rfloor> \<le> x" and c: "x < of_int \<lfloor>x\<rfloor> + 1" by linarith+
  show ?thesis
    unfolding roundEven_def Let_def using f c by (auto simp: abs_le_iff)
qed

lemma roundEven_of_int: "roundEven (of_int n) = n"
  by (simp add: roundEven_def)

lemma roundEven_nearest:
  assumes "\<bar>x - of_int n\<bar> < 1 / 2"
  shows "roundEven x = n"
proof -
  from assms have lo: "x - of_int n < 1 / 2" and hi: "of_int n - x < 1 / 2"
    by linarith+
  show ?thesis
  proof (cases "of_int n \<le> x")
    case True
    with lo have "\<lfloor>x\<rfloor> = n" by (intro floor_unique) simp_all
    with lo show ?thesis by (simp add: roundEven_def)
  next
    case False
    with hi have "\<lfloor>x\<rfloor> = n - 1" by (intro floor_unique) simp_all
    with hi show ?thesis by (simp add: roundEven_def)
  qed
qed

lemma binaryExponent_le:
  assumes "0 < q"
  shows "2 powi (binaryExponent q) \<le> q"
proof -
  obtain a b where ab: "quotient_of q = (a, b)" by (cases "quotient_of q")
  have b: "0 < b" using ab by (rule quotient_of_denom_pos)
  have q: "q = of_int a / of_int b" using ab by (rule quotient_of_div)
  have a: "0 < a" using assms b unfolding q by (simp add: zero_less_divide_iff)
  define k where "k = bitlen a - bitlen b"
  have la: "(2::int) ^ nat (bitlen a - 1) \<le> a" using bitlen_bounds [OF a] by simp
  have lb: "b < (2::int) ^ nat (bitlen b)" using bitlen_bounds [OF b] by simp
  have pa: "0 < bitlen a"
  proof (rule ccontr)
    assume "\<not> 0 < bitlen a"
    then have "nat (bitlen a) = 0" by simp
    with bitlen_bounds [OF a] a show False by simp
  qed
  have pb: "0 \<le> bitlen b" by (rule bitlen_nonneg)
  have la': "(2::rat) powi (bitlen a - 1) \<le> of_int a"
  proof -
    have "(of_int ((2::int) ^ nat (bitlen a - 1)) :: rat) \<le> of_int a"
      using la by (simp only: of_int_le_iff)
    then show ?thesis using pa by (simp add: power_int_nonneg_exp)
  qed
  have lb': "of_int b < (2::rat) powi (bitlen b)"
  proof -
    have "(of_int b :: rat) < of_int ((2::int) ^ nat (bitlen b))"
      using lb by (simp only: of_int_less_iff)
    then show ?thesis using pb by (simp add: power_int_nonneg_exp)
  qed
  have "(2::rat) powi (k - 1) = 2 powi (bitlen a - 1) / 2 powi (bitlen b)"
    unfolding k_def by (simp add: power_int_diff [symmetric] algebra_simps)
  also have "\<dots> \<le> of_int a / 2 powi (bitlen b)"
    using la' by (simp add: divide_right_mono)
  also have "\<dots> \<le> of_int a / of_int b"
    using lb' a b by (simp add: frac_le)
  finally have "(2::rat) powi (k - 1) \<le> q" unfolding q .
  then show ?thesis
    unfolding binaryExponent_def ab k_def by (simp add: Let_def)
qed

lemma binaryExponent_less:
  assumes "0 < q" and "q < 2 powi m"
  shows "binaryExponent q < m"
proof (rule ccontr)
  assume "\<not> binaryExponent q < m"
  then have "m \<le> binaryExponent q" by simp
  then have "(2::rat) powi m \<le> 2 powi (binaryExponent q)"
    by (rule power_int_increasing) simp
  with binaryExponent_le [OF assms(1)] assms(2) show False by simp
qed

lemma binaryExponent_gt:
  assumes "0 < q"
  shows "q < 2 powi (binaryExponent q + 1)"
proof -
  obtain a b where ab: "quotient_of q = (a, b)" by (cases "quotient_of q")
  have b: "0 < b" using ab by (rule quotient_of_denom_pos)
  have q: "q = of_int a / of_int b" using ab by (rule quotient_of_div)
  have a: "0 < a" using assms b unfolding q by (simp add: zero_less_divide_iff)
  define k where "k = bitlen a - bitlen b"
  have la: "a < (2::int) ^ nat (bitlen a)" using bitlen_bounds [OF a] by simp
  have lb: "(2::int) ^ nat (bitlen b - 1) \<le> b" using bitlen_bounds [OF b] by simp
  have pa: "0 \<le> bitlen a" by (rule bitlen_nonneg)
  have pb: "0 < bitlen b"
  proof (rule ccontr)
    assume "\<not> 0 < bitlen b"
    then have "nat (bitlen b) = 0" by simp
    with bitlen_bounds [OF b] b show False by simp
  qed
  have la': "of_int a < (2::rat) powi (bitlen a)"
  proof -
    have "(of_int a :: rat) < of_int ((2::int) ^ nat (bitlen a))"
      using la by (simp only: of_int_less_iff)
    then show ?thesis using pa by (simp add: power_int_nonneg_exp)
  qed
  have lb': "(2::rat) powi (bitlen b - 1) \<le> of_int b"
  proof -
    have "(of_int ((2::int) ^ nat (bitlen b - 1)) :: rat) \<le> of_int b"
      using lb by (simp only: of_int_le_iff)
    then show ?thesis using pb by (simp add: power_int_nonneg_exp)
  qed
  have "of_int a / of_int b < (2::rat) powi (bitlen a) / of_int b"
    using la' b by (simp add: divide_strict_right_mono)
  also have "\<dots> \<le> 2 powi (bitlen a) / 2 powi (bitlen b - 1)"
    using lb' by (intro frac_le) simp_all
  also have "\<dots> = 2 powi (k + 1)"
    unfolding k_def by (simp add: power_int_diff [symmetric] algebra_simps)
  finally have up: "q < 2 powi (k + 1)" unfolding q .
  show ?thesis
    using up unfolding binaryExponent_def ab k_def by (simp add: Let_def not_le)
qed

lemma binaryExponent_eq:
  assumes "0 < q" and "2 powi e \<le> q" and "q < 2 powi (e + 1)"
  shows "binaryExponent q = e"
proof -
  from assms(1,3) have "binaryExponent q < e + 1" by (rule binaryExponent_less)
  moreover have "e < binaryExponent q + 1"
  proof (rule ccontr)
    assume "\<not> e < binaryExponent q + 1"
    then have "binaryExponent q + 1 \<le> e" by simp
    then have "(2::rat) powi (binaryExponent q + 1) \<le> 2 powi e"
      by (rule power_int_increasing) simp
    with binaryExponent_gt [OF assms(1)] assms(2) show False by simp
  qed
  ultimately show ?thesis by simp
qed

lemma roundDouble_error:
  assumes "0 < q"
  shows "\<bar>roundDouble q - q\<bar> \<le> 2 powi (binaryExponent q - 53)"
proof -
  define ulp :: rat where "ulp = 2 powi (binaryExponent q - 52)"
  have u: "0 < ulp" unfolding ulp_def by simp
  have h: "2 powi (binaryExponent q - 53) = ulp / 2"
    unfolding ulp_def using power_int_diff [of "2::rat" "binaryExponent q - 52" 1] by simp
  have "\<bar>of_int (roundEven (q / ulp)) - q / ulp\<bar> \<le> 1 / 2" by (rule roundEven_error)
  then have "\<bar>of_int (roundEven (q / ulp)) - q / ulp\<bar> * ulp \<le> 1 / 2 * ulp"
    using u by (simp add: mult_right_mono)
  moreover have "\<bar>of_int (roundEven (q / ulp)) - q / ulp\<bar> * ulp
      = \<bar>(of_int (roundEven (q / ulp)) - q / ulp) * ulp\<bar>"
    using u by (simp add: abs_mult)
  moreover have "(of_int (roundEven (q / ulp)) - q / ulp) * ulp
      = of_int (roundEven (q / ulp)) * ulp - q"
    using u by (simp add: field_simps)
  ultimately have "\<bar>of_int (roundEven (q / ulp)) * ulp - q\<bar> \<le> ulp / 2" by simp
  then show ?thesis
    unfolding h using assms by (simp add: roundDouble_def Let_def ulp_def abs_of_pos)
qed

lemma roundDouble_exact:
  assumes "0 < q" and "q / 2 powi (binaryExponent q - 52) = of_int n"
  shows "roundDouble q = q"
proof -
  have "of_int n * 2 powi (binaryExponent q - 52) = q"
    using assms(2) by (simp add: field_simps)
  then show ?thesis
    using assms by (simp add: roundDouble_def Let_def roundEven_of_int abs_of_pos)
qed

lemma roundDouble_ge:
  assumes "0 < q"
  shows "q * (1 - 1 / 2 ^ 53) \<le> roundDouble q"
proof -
  have "(2::rat) powi (binaryExponent q - 53) = 2 powi (binaryExponent q) / 2 ^ 53"
    using power_int_diff [of "2::rat" "binaryExponent q" 53] by simp
  also have "\<dots> \<le> q / 2 ^ 53"
    using binaryExponent_le [OF assms] by (simp add: divide_right_mono)
  finally have "(2::rat) powi (binaryExponent q - 53) \<le> q / 2 ^ 53" .
  with roundDouble_error [OF assms] show ?thesis by (simp add: algebra_simps abs_le_iff)
qed


lemma roundDouble_dyadic:
  assumes "0 < q" and "q = of_int n * 2 powi j" and "binaryExponent q - 52 \<le> j"
  shows "roundDouble q = q"
proof -
  define e where "e = binaryExponent q - 52"
  define i where "i = nat (j - e)"
  have j: "j = e + int i" unfolding i_def e_def using assms(3) by simp
  have "(2::rat) powi j = 2 powi e * 2 ^ i"
    unfolding j by (simp add: power_int_add)
  then have "q / 2 powi e = of_int (n * 2 ^ i)"
    using assms(2) by simp
  then have "q / 2 powi (binaryExponent q - 52) = of_int (n * 2 ^ i)"
    unfolding e_def .
  with assms(1) show ?thesis by (rule roundDouble_exact)
qed

lemma roundDouble_of_nat:
  assumes "n < 2 ^ 53"
  shows "roundDouble (of_nat n) = of_nat n"
proof (cases "n = 0")
  case True
  then show ?thesis by (simp add: roundDouble_def)
next
  case False
  then have pos: "(0::rat) < of_nat n" by simp
  have "(of_nat n :: rat) < of_nat (2 ^ 53)" using assms by (simp only: of_nat_less_iff)
  then have "(of_nat n :: rat) < 2 powi 53" by simp
  with pos have "binaryExponent (of_nat n) < 53" by (rule binaryExponent_less)
  then have le: "binaryExponent (of_nat n) - 52 \<le> 0" by simp
  have eq: "(of_nat n :: rat) = of_int (int n) * 2 powi 0" by simp
  from pos eq le show ?thesis by (rule roundDouble_dyadic)
qed

lemma roundDouble_threshold:
  assumes q: "0 < q" and c: "0 < c"
    and exact: "roundDouble c = c"
    and below: "c < 2 powi m * (1 - 1 / 2 ^ 53)"
    and gap: "q \<noteq> c \<Longrightarrow> 2 powi (m - 54) < \<bar>q - c\<bar>"
  shows "roundDouble q < c \<longleftrightarrow> q < c" and "c < roundDouble q \<longleftrightarrow> c < q"
proof -
  have near: "\<bar>roundDouble q - q\<bar> \<le> 2 powi (m - 54)" if "q < 2 powi m"
  proof -
    from q that have "binaryExponent q < m" by (rule binaryExponent_less)
    then have "binaryExponent q - 53 \<le> m - 54" by simp
    then have "(2::rat) powi (binaryExponent q - 53) \<le> 2 powi (m - 54)"
      by (rule power_int_increasing) simp
    with roundDouble_error [OF q] show ?thesis by simp
  qed
  have cm: "c < 2 powi m"
  proof -
    have "c < P" if "0 < P" and "c < P * (1 - 1 / 2 ^ 53)" for P :: rat
      using that by (simp add: algebra_simps)
    from this [OF _ below] show ?thesis by simp
  qed
  consider "q = c" | "q < c" | "c < q" "q < 2 powi m" | "2 powi m \<le> q"
    using cm by linarith
  then have "(roundDouble q < c \<longleftrightarrow> q < c) \<and> (c < roundDouble q \<longleftrightarrow> c < q)"
  proof cases
    case 1
    then show ?thesis using exact by simp
  next
    case 2
    then have "q < 2 powi m" using cm by simp
    from near [OF this] gap 2 show ?thesis by (simp add: abs_le_iff abs_less_iff; linarith)
  next
    case 3
    from near [OF 3(2)] gap 3(1) show ?thesis by (simp add: abs_le_iff abs_less_iff; linarith)
  next
    case 4
    have "(2::rat) powi m * (1 - 1 / 2 ^ 53) \<le> q * (1 - 1 / 2 ^ 53)"
      using 4 by (rule mult_right_mono) simp
    with roundDouble_ge [OF q] below have "c < roundDouble q" by simp
    moreover have "c < q" using 4 cm by simp
    ultimately show ?thesis by simp
  qed
  then show "roundDouble q < c \<longleftrightarrow> q < c" and "c < roundDouble q \<longleftrightarrow> c < q" by simp_all
qed


lemma quotient_gap:
  fixes u s a b :: nat and B :: rat
  assumes s: "0 < s" and b: "0 < b"
    and bound: "of_nat (b * s) < B"
    and ne: "(of_nat u / of_nat s :: rat) \<noteq> of_nat a / of_nat b"
  shows "1 / B < \<bar>of_nat u / of_nat s - of_nat a / of_nat b :: rat\<bar>"
proof -
  define N where "N = int b * int u - int a * int s"
  define D :: rat where "D = of_nat (b * s)"
  have D: "0 < D" unfolding D_def using s b by simp
  have eq: "(of_nat u / of_nat s - of_nat a / of_nat b :: rat) = of_int N / D"
    unfolding N_def D_def using s b by (simp add: field_simps)
  have "N \<noteq> 0"
  proof
    assume "N = 0"
    with eq ne show False by simp
  qed
  then have "1 \<le> \<bar>N\<bar>" by simp
  then have "(of_int 1 :: rat) \<le> of_int \<bar>N\<bar>" by (simp only: of_int_le_iff)
  then have one: "(1::rat) \<le> \<bar>of_int N\<bar>" by simp
  have "1 / B < 1 / D"
    using D bound unfolding D_def by (simp add: frac_less2)
  also have "\<dots> \<le> \<bar>of_int N\<bar> / D"
    using one D by (simp add: divide_right_mono)
  also have "\<dots> = \<bar>of_int N / D\<bar>"
    using D by simp
  finally show ?thesis unfolding eq .
qed

lemma roundDouble_low_limit:
  "roundDouble (5368709 / 536870912) = 5368709 / 536870912"
proof -
  have pos: "(0::rat) < 5368709 / 536870912" by simp
  have "(5368709 / 536870912 :: rat) < 2 powi (- 6)" by simp
  with pos have "binaryExponent (5368709 / 536870912) < - 6" by (rule binaryExponent_less)
  then have le: "binaryExponent (5368709 / 536870912) - 52 \<le> - 29" by simp
  have eq: "(5368709 / 536870912 :: rat) = of_int 5368709 * 2 powi (- 29)" by simp
  from pos eq le show ?thesis by (rule roundDouble_dyadic)
qed

lemma roundDouble_high_limit:
  "roundDouble (5033165 / 4194304) = 5033165 / 4194304"
proof -
  have pos: "(0::rat) < 5033165 / 4194304" by simp
  have "(5033165 / 4194304 :: rat) < 2 powi 1" by simp
  with pos have "binaryExponent (5033165 / 4194304) < 1" by (rule binaryExponent_less)
  then have le: "binaryExponent (5033165 / 4194304) - 52 \<le> - 22" by simp
  have eq: "(5033165 / 4194304 :: rat) = of_int 5033165 * 2 powi (- 22)" by simp
  from pos eq le show ?thesis by (rule roundDouble_dyadic)
qed

lemma quotient_exact:
  assumes "u < 2 ^ 53" and "s < 2 ^ 31"
  shows "roundDouble (roundDouble (of_nat u) / roundDouble (of_nat s)) = roundDouble (of_nat u / of_nat s)"
proof -
  have "s < 2 ^ 53" using assms(2) by simp
  then show ?thesis using assms(1) by (simp add: roundDouble_of_nat)
qed

lemma quotient_large:
  assumes s: "0 < s" and bound: "s < 2 ^ 31" and u: "2 ^ 53 \<le> u"
  shows "2 < roundDouble (roundDouble (of_nat u) / roundDouble (of_nat s))"
proof -
  define x where "x = roundDouble (of_nat u)"
  have su: "s < 2 ^ 53" using bound by simp
  have upos: "(0::rat) < of_nat u" using u by simp
  have "(of_nat (2 ^ 53) :: rat) \<le> of_nat u" using u by (simp only: of_nat_le_iff)
  then have "(2 ^ 53 - 1 :: rat) \<le> of_nat u * (1 - 1 / 2 ^ 53)" by simp
  with roundDouble_ge [OF upos] have x: "2 ^ 53 - 1 \<le> x" unfolding x_def by simp
  have "(of_nat s :: rat) < of_nat (2 ^ 31)" using bound by (simp only: of_nat_less_iff)
  then have s31: "(of_nat s :: rat) < 2 ^ 31" by simp
  have spos: "(0::rat) < of_nat s" using s by simp
  have z: "4194303 \<le> x / of_nat s"
    using x s31 spos by (simp add: pos_le_divide_eq)
  then have zpos: "0 < x / of_nat s" by simp
  from roundDouble_ge [OF zpos] z have "2 < roundDouble (x / of_nat s)" by simp
  then show ?thesis
    unfolding x_def using su by (simp add: roundDouble_of_nat)
qed

lemma quotient_low_iff:
  assumes s: "0 < s" and bound: "s < 2 ^ 31"
  shows "roundDouble (roundDouble (of_nat u) / roundDouble (of_nat s)) < 5368709 / 536870912 \<longleftrightarrow>
    536870912 * u < 5368709 * s"
proof -
  have exact: "(of_nat u / of_nat s :: rat) < 5368709 / 536870912 \<longleftrightarrow>
      536870912 * u < 5368709 * s"
  proof -
    have "(of_nat u / of_nat s :: rat) < 5368709 / 536870912 \<longleftrightarrow>
        (of_nat (536870912 * u) :: rat) < of_nat (5368709 * s)"
      using s by (simp add: field_simps)
    then show ?thesis by (simp only: of_nat_less_iff)
  qed
  consider "u = 0" | "0 < u" "u < 2 ^ 53" | "2 ^ 53 \<le> u" by linarith
  then show ?thesis
  proof cases
    case 1
    then show ?thesis using s by (simp add: roundDouble_def)
  next
    case 2
    have q: "(0::rat) < of_nat u / of_nat s" using 2(1) s by simp
    have "(of_nat (536870912 * s) :: rat) < of_nat (2 ^ 60)"
      using bound by (simp only: of_nat_less_iff) simp
    then have b: "(of_nat (536870912 * s) :: rat) < 2 ^ 60" by simp
    have gap: "2 powi (- 6 - 54) < \<bar>of_nat u / of_nat s - 5368709 / 536870912 :: rat\<bar>"
      if "(of_nat u / of_nat s :: rat) \<noteq> 5368709 / 536870912"
      using quotient_gap [of s 536870912 "2 ^ 60" u 5368709] s b that by simp
    have "roundDouble (of_nat u / of_nat s) < 5368709 / 536870912 \<longleftrightarrow>
        (of_nat u / of_nat s :: rat) < 5368709 / 536870912"
      by (rule roundDouble_threshold(1) [where m = "- 6", OF q _ roundDouble_low_limit _ gap])
        simp_all
    then show ?thesis unfolding quotient_exact [OF 2(2) bound] exact .
  next
    case 3
    from quotient_large [OF s bound 3] have "\<not> roundDouble (roundDouble (of_nat u) / roundDouble (of_nat s)) < 5368709 / 536870912"
      by simp
    moreover have "\<not> 536870912 * u < 5368709 * s" using 3 bound by simp
    ultimately show ?thesis by simp
  qed
qed

lemma quotient_high_iff:
  assumes s: "0 < s" and bound: "s < 2 ^ 31"
  shows "5033165 / 4194304 < roundDouble (roundDouble (of_nat u) / roundDouble (of_nat s)) \<longleftrightarrow>
    5033165 * s < 4194304 * u"
proof -
  have exact: "5033165 / 4194304 < (of_nat u / of_nat s :: rat) \<longleftrightarrow>
      5033165 * s < 4194304 * u"
  proof -
    have "5033165 / 4194304 < (of_nat u / of_nat s :: rat) \<longleftrightarrow>
        (of_nat (5033165 * s) :: rat) < of_nat (4194304 * u)"
      using s by (simp add: field_simps)
    then show ?thesis by (simp only: of_nat_less_iff)
  qed
  consider "u = 0" | "0 < u" "u < 2 ^ 53" | "2 ^ 53 \<le> u" by linarith
  then show ?thesis
  proof cases
    case 1
    then show ?thesis using s by (simp add: roundDouble_def)
  next
    case 2
    have q: "(0::rat) < of_nat u / of_nat s" using 2(1) s by simp
    have "(of_nat (4194304 * s) :: rat) < of_nat (2 ^ 53)"
      using bound by (simp only: of_nat_less_iff) simp
    then have b: "(of_nat (4194304 * s) :: rat) < 2 ^ 53" by simp
    have gap: "2 powi (1 - 54) < \<bar>of_nat u / of_nat s - 5033165 / 4194304 :: rat\<bar>"
      if "(of_nat u / of_nat s :: rat) \<noteq> 5033165 / 4194304"
      using quotient_gap [of s 4194304 "2 ^ 53" u 5033165] s b that by simp
    have "5033165 / 4194304 < roundDouble (of_nat u / of_nat s) \<longleftrightarrow>
        5033165 / 4194304 < (of_nat u / of_nat s :: rat)"
      by (rule roundDouble_threshold(2) [where m = 1, OF q _ roundDouble_high_limit _ gap])
        simp_all
    then show ?thesis unfolding quotient_exact [OF 2(2) bound] exact .
  next
    case 3
    from quotient_large [OF s bound 3] have "5033165 / 4194304 < roundDouble (roundDouble (of_nat u) / roundDouble (of_nat s))"
      by simp
    moreover have "5033165 * s < 4194304 * u" using 3 bound by simp
    ultimately show ?thesis by simp
  qed
qed

text \<open>
  Both counters are exact in \<^verbatim>\<open>double\<close> below \<open>2 ^ 53\<close>, both limits are exact, and a quotient
  with a denominator below \<open>2 ^ 31\<close> that is not a limit is further from it than half a unit
  in the last place.  So for a capacity below \<open>2 ^ 31\<close> the comparisons of \<^verbatim>\<open>isNeedRehash\<close> and
  \<^verbatim>\<open>prepareRehash\<close> are comparisons of integers.
\<close>

lemma fillFactor_low_iff:
  "0 < dictionarySize d \<Longrightarrow> dictionarySize d < 2 ^ 31 \<Longrightarrow>
     fillFactor d < DICTIONARY_LOW_LIMIT_REHASH \<longleftrightarrow>
       536870912 * dictionaryUsed d < 5368709 * dictionarySize d"
  unfolding fillFactor_def DICTIONARY_LOW_LIMIT_REHASH_def by (rule quotient_low_iff)

lemma fillFactor_high_iff:
  "0 < dictionarySize d \<Longrightarrow> dictionarySize d < 2 ^ 31 \<Longrightarrow>
     DICTIONARY_HIGH_LIMIT_REHASH < fillFactor d \<longleftrightarrow>
       5033165 * dictionarySize d < 4194304 * dictionaryUsed d"
  unfolding fillFactor_def DICTIONARY_HIGH_LIMIT_REHASH_def by (rule quotient_high_iff)

text \<open>
  The bound on the capacity is needed.  At capacity \<open>2371179853\<close> with \<open>23711798\<close> entries the
  exact quotient is below the low limit, the quotient in \<^verbatim>\<open>double\<close> is the low limit, and
  \<^verbatim>\<open>isNeedRehash\<close> is false.
\<close>

lemma fillFactor_at_low_limit:
  assumes "dictionarySize d = 2371179853" and "dictionaryUsed d = 23711798"
  shows "fillFactor d = DICTIONARY_LOW_LIMIT_REHASH"
    and "536870912 * dictionaryUsed d < 5368709 * dictionarySize d"
    and "\<not> isNeedRehash d"
proof -
  have e: "binaryExponent (23711798 / 2371179853) = - 7"
    by (rule binaryExponent_eq) simp_all
  have "roundEven (23711798 / 2371179853 / 2 powi (- 7 - 52)) = 5764607394185216"
    by (rule roundEven_nearest) simp
  then have "roundDouble (23711798 / 2371179853) = 5368709 / 536870912"
    by (simp add: roundDouble_def e)
  with roundDouble_of_nat [of 23711798] roundDouble_of_nat [of 2371179853]
  show f: "fillFactor d = DICTIONARY_LOW_LIMIT_REHASH"
    by (simp add: fillFactor_def DICTIONARY_LOW_LIMIT_REHASH_def assms)
  show "536870912 * dictionaryUsed d < 5368709 * dictionarySize d"
    by (simp add: assms)
  show "\<not> isNeedRehash d"
    by (simp add: isNeedRehash_def f DICTIONARY_LOW_LIMIT_REHASH_def
        DICTIONARY_HIGH_LIMIT_REHASH_def)
qed

subsection \<open>Concrete runs\<close>

lemmas storage_eval =
  replies_def faultBind_def kv_set_def kv_get_def kv_remove_def
  isExist_def isExpired_def removeOneExpiredEntry_def getManySorted_def lower_bound_def
  dict_set_def dict_get_def dict_remove_def preCommandActions_def isRehashing_def isNeedRehash_def
  internal_set_def internal_get_def internal_remove_def getBucketIndex_def tableOf_def
  storeTable_def newStorage_def newDictionary_def BASIC_DICTIONARY_SIZE_def stringHash_def
  ComparatorPtrKey_def pairLess_def ptrLess_def equivalentKey_def Let_def intWrap_def

lemmas dictionary_eval =
  faultBind_def dict_set_def dict_get_def dict_remove_def preCommandActions_def isRehashing_def
  isNeedRehash_def internal_set_def internal_get_def internal_remove_def getBucketIndex_def
  tableOf_def storeTable_def newDictionary_def BASIC_DICTIONARY_SIZE_def identityHash_def Let_def
  fillFactor_low_iff fillFactor_high_iff
  prepareRehash_def rehash_def DICTIONARY_REHASH_BUCKET_COUNT_def SIZE_MAX_def
  rehashLoop_result nth_wipeBuckets length_wipeBuckets

text \<open>The scenarios of the specification and of the tests run as the tests expect.\<close>

lemma scenario_getManySorted:
  "replies (run stringHash
      [Set 100 101 ''a'' ''v1'' 0, Set 200 201 ''b'' ''v2'' 0, Set 300 301 ''d'' ''v3'' 0,
       Set 400 401 ''e'' ''v4'' 0, GetManySorted ''c'' 2]
      (0, newStorage)) =
   Inr [Done, Done, Done, Done, Entries [(''d'', ''v3''), (''e'', ''v4'')]]"
  by (simp add: storage_eval)

lemma scenario_expired_get:
  "replies (run stringHash [Set 100 101 ''key1'' ''v'' 5, Advance 6, Get ''key1'']
      (0, newStorage)) =
   Inr [Done, Done, Value None]"
  by (simp add: storage_eval)

lemma scenario_mixed_ttls:
  "replies (run stringHash
      [Set 100 101 ''x'' ''vx'' 1, Set 200 201 ''y'' ''vy'' 10, Advance 2,
       RemoveOneExpiredEntry, RemoveOneExpiredEntry, Get ''y'']
      (0, newStorage)) =
   Inr [Done, Done, Done, Entry (Some (''x'', ''vx'')), Entry None, Value (Some ''vy'')]"
  by (simp add: storage_eval)

lemma scenario_skips_expired:
  "replies (run stringHash
      [Set 100 101 ''a'' ''val1'' 5, Set 200 201 ''b'' ''val2'' 0, Advance 6,
       GetManySorted ''a'' 2]
      (0, newStorage)) =
   Inr [Done, Done, Done, Entries [(''b'', ''val2'')]]"
  by (simp add: storage_eval)

lemma basic_capacity_keeps_keys:
  "faultBind
     (FillDictionary identityHash
        [(0, ''v0''), (1, ''v1''), (2, ''v2''), (3, ''v3''), (4, ''v4''), (5, ''v5''),
         (6, ''v6''), (7, ''v7''), (8, ''v8''), (9, ''v9''), (10, ''v10'')]
        (newDictionary 8))
     (CheckValues identityHash [0, 1, 2, 3, 4, 5, 6, 7, 8, 9, 10]) =
   Inr [Some ''v0'', Some ''v1'', Some ''v2'', Some ''v3'', Some ''v4'', Some ''v5'',
        Some ''v6'', Some ''v7'', Some ''v8'', Some ''v9'', Some ''v10'']"
  by (simp add: dictionary_eval del: rehashLoop.simps)

lemma run_expiredEntryStorage:
  "run stringHash [Set 100 101 ''k'' ''old'' 1] (0, newStorage) =
     Inr ((0, expiredEntryStorage), [Done])"
  by (simp add: storage_eval expiredEntryStorage_def)

lemma reachable_expiredEntryStorage: "reachable stringHash expiredEntryStorage"
  unfolding reachable_def using run_expiredEntryStorage by blast

lemma set_oneEntryDictionary:
  "dict_set identityHash 5 ''v'' (newDictionary 101) = Inr oneEntryDictionary"
  by (simp add: dictionary_eval oneEntryDictionary_def del: rehashLoop.simps)

subsection \<open>The range scan\<close>

lemma keys_liveEntries:
  "snd ` set it \<subseteq> dom (lookup h (keyValueDictionary s)) \<Longrightarrow>
     map fst (liveEntries h now s it) = filter (\<lambda>k'. \<not> expiredAt h now s k') (map snd it)"
  by (induction it) auto

lemma values_liveEntries:
  "(k', v) \<in> set (liveEntries h now s it) \<Longrightarrow> lookup h (keyValueDictionary s) k' = Some v"
  by (induction it) (auto split: if_splits option.splits)

lemma lower_bound_filter:
  "sorted_wrt ComparatorPtrKey xs \<Longrightarrow> lower_bound k xs = filter (\<lambda>p. k \<le> snd p) xs"
proof (induction xs)
  case Nil
  then show ?case by (simp add: lower_bound_def)
next
  case (Cons y ys)
  from Cons.prems have above: "\<forall>z \<in> set ys. snd y < snd z"
    by (simp add: ComparatorPtrKey_def)
  show ?case
  proof (cases "snd y < k")
    case True
    with Cons show ?thesis
      by (simp add: lower_bound_def)
  next
    case False
    with above have "\<forall>z \<in> set ys. k \<le> snd z"
      by auto
    then have "filter (\<lambda>p. k \<le> snd p) ys = ys"
      by simp
    with False show ?thesis
      by (simp add: lower_bound_def)
  qed
qed

lemma sorted_keys:
  assumes "sorted_wrt ComparatorPtrKey xs"
  shows "sorted_wrt (<) (map snd xs)"
proof -
  have "sorted_wrt (\<lambda>a b. snd a < snd b) xs"
    using assms by (simp add: ComparatorPtrKey_def [abs_def])
  then show ?thesis
    by (simp add: sorted_wrt_map)
qed

lemma keys_sorted_list_of_set:
  assumes "storageInv h s"
  shows "map snd (setSortedKeyPtr s) = sorted_list_of_set (dom (lookup h (keyValueDictionary s)))"
proof -
  from assms have "sorted_wrt (<) (map snd (setSortedKeyPtr s))"
    by (simp add: storageInv_def sorted_keys)
  then have "sorted (map snd (setSortedKeyPtr s))" "distinct (map snd (setSortedKeyPtr s))"
    by (simp_all add: strict_sorted_iff)
  then have "sorted_list_of_set (set (map snd (setSortedKeyPtr s))) = map snd (setSortedKeyPtr s)"
    by (rule sorted_list_of_set.idem_if_sorted_distinct)
  moreover from assms
  have "set (map snd (setSortedKeyPtr s)) = dom (lookup h (keyValueDictionary s))"
    by (simp add: storageInv_def)
  ultimately show ?thesis by simp
qed

text \<open>
  C7.  In every reachable storage, \<open>getManySorted\<close> from the key \<open>k\<close> with the bound \<open>count\<close>
  returns without a fault and leaves the storage as it was.  The keys of the result are
  strictly increasing, all at least \<open>k\<close>, at most \<open>count\<close> many: they are the first \<open>count\<close>
  of the stored keys at least \<open>k\<close> that are not expired, in increasing order, each with its
  stored value, which is the value \<open>get\<close> returns for the key at that clock reading.
\<close>

theorem getManySorted_first_live_keys:
  assumes "reachable h s"
  shows "\<exists>r. getManySorted h now k count s = Inr (s, r) \<and>
           sorted_wrt (<) (map fst r) \<and>
           (\<forall>k' \<in> set (map fst r). k \<le> k') \<and>
           length r \<le> unat count \<and>
           map fst r =
             take (unat count)
               (filter (\<lambda>k'. k \<le> k' \<and> \<not> expiredAt h now s k')
                 (sorted_list_of_set (dom (lookup h (keyValueDictionary s))))) \<and>
           (\<forall>e \<in> set r. lookup h (keyValueDictionary s) (fst e) = Some (snd e)) \<and>
           (\<forall>e \<in> set r. kv_get h now (fst e) s = Inr (s, Some (snd e)))"
proof -
  from assms have inv: "storageInv h s"
    by (rule reachable_storageInv)
  let ?it = "lower_bound k (setSortedKeyPtr s)"
  let ?r = "take (unat count) (liveEntries h now s ?it)"
  let ?all = "sorted_list_of_set (dom (lookup h (keyValueDictionary s)))"
  have run: "getManySorted h now k count s = Inr (s, ?r)"
    using inv by (rule getManySorted_inv)
  from inv have sorted: "sorted_wrt ComparatorPtrKey (setSortedKeyPtr s)"
    and keys: "snd ` set (setSortedKeyPtr s) = dom (lookup h (keyValueDictionary s))"
    by (simp_all add: storageInv_def)
  from keys set_lower_bound_subset [of k "setSortedKeyPtr s"]
  have sub: "snd ` set ?it \<subseteq> dom (lookup h (keyValueDictionary s))"
    by blast
  have "map snd ?it = filter (\<lambda>k'. k \<le> k') (map snd (setSortedKeyPtr s))"
    by (simp add: lower_bound_filter [OF sorted] filter_map comp_def)
  then have it: "map snd ?it = filter (\<lambda>k'. k \<le> k') ?all"
    by (simp add: keys_sorted_list_of_set [OF inv])
  have "map fst ?r = take (unat count) (filter (\<lambda>k'. \<not> expiredAt h now s k') (map snd ?it))"
    by (simp only: take_map [symmetric] keys_liveEntries [OF sub])
  then have ks: "map fst ?r =
      take (unat count) (filter (\<lambda>k'. k \<le> k' \<and> \<not> expiredAt h now s k') ?all)"
    by (simp add: it conj_commute)
  have "sorted_wrt (<) ?all"
    by (simp add: strict_sorted_iff)
  then have "sorted_wrt (<) (filter (\<lambda>k'. k \<le> k' \<and> \<not> expiredAt h now s k') ?all)"
    by (rule sorted_wrt_filter)
  then have incr: "sorted_wrt (<) (map fst ?r)"
    unfolding ks by (rule sorted_wrt_take)
  have "set (map fst ?r) \<subseteq> set (filter (\<lambda>k'. k \<le> k' \<and> \<not> expiredAt h now s k') ?all)"
    unfolding ks by (rule set_take_subset)
  then have lower: "\<forall>k' \<in> set (map fst ?r). k \<le> k'"
    by auto
  have len: "length ?r \<le> unat count"
    by simp
  have "set ?r \<subseteq> set (liveEntries h now s ?it)"
    by (rule set_take_subset)
  then have vals: "\<forall>e \<in> set ?r. lookup h (keyValueDictionary s) (fst e) = Some (snd e)"
    using values_liveEntries [of _ _ h now s ?it] by auto
  have "\<not> expiredAt h now s k'" if "k' \<in> set (map fst ?r)" for k'
    using that unfolding ks by (auto dest: in_set_takeD)
  with vals have gets: "\<forall>e \<in> set ?r. kv_get h now (fst e) s = Inr (s, Some (snd e))"
    by (simp add: kv_get_inv [OF inv])
  from run incr lower len ks vals gets show ?thesis
    by blast
qed

lemma lookup_expiredEntryStorage:
  "lookup stringHash (keyValueDictionary expiredEntryStorage) k' =
     (if k' = ''k'' then Some ''old'' else None)"
  by (simp add: lookup_def expiredEntryStorage_def stringHash_def nth_list_update)

lemma dom_expiredEntryStorage:
  "dom (lookup stringHash (keyValueDictionary expiredEntryStorage)) = {''k''}"
  by (auto simp: lookup_expiredEntryStorage dom_def)

theorem getManySorted_first_live_keys_witness:
  "reachable stringHash expiredEntryStorage \<and>
   getManySorted stringHash 0 ''a'' 5 expiredEntryStorage =
     Inr (expiredEntryStorage, [(''k'', ''old'')])"
proof -
  have live: "\<not> expiredAt stringHash 0 expiredEntryStorage ''k''"
    by (simp add: expiredAt_def lookup_def expiredEntryStorage_def stringHash_def)
  from getManySorted_first_live_keys [OF reachable_expiredEntryStorage, of 0 "''a''" 5]
  obtain r where
    run: "getManySorted stringHash 0 ''a'' 5 expiredEntryStorage = Inr (expiredEntryStorage, r)"
    and keys: "map fst r = [''k'']"
    and vals: "\<forall>e \<in> set r. lookup stringHash (keyValueDictionary expiredEntryStorage) (fst e) =
                 Some (snd e)"
    using live by (auto simp: dom_expiredEntryStorage)
  from keys obtain e where e: "r = [e]" "fst e = ''k''"
    by auto
  with vals have "snd e = ''old''"
    by (simp add: lookup_expiredEntryStorage)
  with e have "r = [(''k'', ''old'')]"
    by (simp add: prod_eq_iff)
  with run reachable_expiredEntryStorage show ?thesis
    by simp
qed

subsection \<open>Set followed by get\<close>

lemma intWrap_id: "inIntRange x \<Longrightarrow> intWrap x = x"
  by (simp add: intWrap_def inIntRange_def INT_MIN_def INT_MAX_def)

lemma inIntRange_intWrap: "inIntRange (intWrap x)"
proof -
  have "0 \<le> (x + 2147483648) mod 4294967296" "(x + 2147483648) mod 4294967296 < 4294967296"
    by simp_all
  then show ?thesis
    by (simp add: intWrap_def inIntRange_def INT_MIN_def INT_MAX_def)
qed

lemma set_then_get:
  assumes "storageInv h s"
  shows "\<exists>s'. kv_set h T aKey aTtl k v t s = Inr s' \<and>
           kv_get h c k s' =
             Inr (s', if (if t \<noteq> 0 then intWrap (t + T) < c
                          else expiredAt h c s k) then None else Some v)"
proof -
  from kv_set_inv [OF assms, of T aKey aTtl k v t] obtain s' where
    s': "kv_set h T aKey aTtl k v t s = Inr s'" "storageInv h s'"
      "lookup h (keyValueDictionary s') k = Some v"
      "lookup h (keyTtlDictionary s') k =
         (if t \<noteq> 0 then Some (intWrap (t + T)) else lookup h (keyTtlDictionary s) k)"
    by auto
  have "expiredAt h c s' k = (if t \<noteq> 0 then intWrap (t + T) < c else expiredAt h c s k)"
    by (simp add: expiredAt_def s'(4))
  with s'(1,3) kv_get_inv [OF s'(2), of c k] show ?thesis
    by auto
qed

lemma call_untouched:
  assumes "storageInv h s" "\<not> touches k c"
  shows "\<exists>now' s' r. call h c (now, s) = Inr ((now', s'), r) \<and> storageInv h s' \<and>
           lookup h (keyValueDictionary s') k = lookup h (keyValueDictionary s) k \<and>
           lookup h (keyTtlDictionary s') k = lookup h (keyTtlDictionary s) k"
proof (cases c)
  case (Set aKey aTtl k' v ttl)
  with assms(2) have "k' \<noteq> k"
    by simp
  with kv_set_inv [OF assms(1), of now aKey aTtl k' v ttl] Set show ?thesis
    by (auto simp: faultBind_def)
next
  case (Remove k')
  with assms(2) have ne: "k' \<noteq> k"
    by simp
  show ?thesis
  proof (cases "lookup h (keyValueDictionary s) k' = None")
    case True
    with Remove assms(1) show ?thesis
      by (simp add: kv_remove_absent faultBind_def)
  next
    case False
    from kv_remove_present [OF assms(1) False] ne Remove show ?thesis
      by (auto simp: faultBind_def)
  qed
next
  case (Get k')
  with assms(1) show ?thesis
    by (simp add: kv_get_inv faultBind_def)
next
  case (GetManySorted k' count)
  with assms(1) show ?thesis
    by (simp add: getManySorted_inv faultBind_def)
next
  case RemoveOneExpiredEntry
  with assms(2) show ?thesis
    by simp
next
  case (Advance sec)
  with assms(1) show ?thesis
    by simp
qed

lemma run_untouched:
  assumes "storageInv h s" "\<forall>c \<in> set cs. \<not> touches k c"
  shows "\<exists>now' s' rs. run h cs (now, s) = Inr ((now', s'), rs) \<and> storageInv h s' \<and>
           lookup h (keyValueDictionary s') k = lookup h (keyValueDictionary s) k \<and>
           lookup h (keyTtlDictionary s') k = lookup h (keyTtlDictionary s) k"
  using assms
proof (induction cs arbitrary: now s)
  case Nil
  then show ?case by simp
next
  case (Cons c cs)
  from Cons.prems(2) have c: "\<not> touches k c" and cs: "\<forall>c \<in> set cs. \<not> touches k c"
    by simp_all
  from call_untouched [OF Cons.prems(1) c, of now] obtain now1 s1 r where
    s1: "call h c (now, s) = Inr ((now1, s1), r)" "storageInv h s1"
      "lookup h (keyValueDictionary s1) k = lookup h (keyValueDictionary s) k"
      "lookup h (keyTtlDictionary s1) k = lookup h (keyTtlDictionary s) k"
    by blast
  from Cons.IH [OF s1(2) cs, of now1] obtain now' s' rs where
    "run h cs (now1, s1) = Inr ((now', s'), rs)" "storageInv h s'"
    "lookup h (keyValueDictionary s') k = lookup h (keyValueDictionary s1) k"
    "lookup h (keyTtlDictionary s') k = lookup h (keyTtlDictionary s1) k"
    by blast
  with s1 show ?case
    by (simp add: faultBind_def)
qed

text \<open>
  C4, as the code has it.  Let \<open>set\<close> of \<open>k\<close> to \<open>v\<close> with a time to live \<open>t > 0\<close> run in a
  reachable storage at the clock reading \<open>T0\<close>, where \<open>T0\<close>, \<open>t\<close> and the sum \<open>T0 + t\<close> are in
  the range of \<^verbatim>\<open>int\<close>.  It succeeds.  Whatever requests follow, as long as none of them is
  a \<open>set\<close> or a \<open>remove\<close> of \<open>k\<close> or an eviction, they succeed, and a \<open>get\<close> of \<open>k\<close> after them,
  at the clock reading \<open>T\<close>, returns \<open>v\<close> when \<open>T \<le> T0 + t\<close> and nothing when \<open>T0 + t < T\<close>:
  the entry is still there at the reading \<open>T0 + t\<close> itself.
\<close>

theorem set_with_ttl_then_get:
  assumes "reachable h s" and "0 < t"
    and "inIntRange T0" and "inIntRange t" and "inIntRange (T0 + t)"
    and "\<forall>c \<in> set cs. \<not> touches k c"
  shows "\<exists>s' T s'' rs.
           kv_set h T0 aKey aTtl k v t s = Inr s' \<and>
           run h cs (T0, s') = Inr ((T, s''), rs) \<and>
           kv_get h T k s'' = Inr (s'', if T \<le> T0 + t then Some v else None)"
proof -
  from assms(1) have "storageInv h s"
    by (rule reachable_storageInv)
  from assms(5) have "intWrap (t + T0) = t + T0"
    by (simp add: intWrap_id add.commute)
  with kv_set_inv [OF \<open>storageInv h s\<close>, of T0 aKey aTtl k v t] assms(2) obtain s' where
    s': "kv_set h T0 aKey aTtl k v t s = Inr s'" "storageInv h s'"
      "lookup h (keyValueDictionary s') k = Some v"
      "lookup h (keyTtlDictionary s') k = Some (t + T0)"
    by auto
  from run_untouched [OF s'(2) assms(6), of T0] obtain T s'' rs where
    s'': "run h cs (T0, s') = Inr ((T, s''), rs)" "storageInv h s''"
      "lookup h (keyValueDictionary s'') k = lookup h (keyValueDictionary s') k"
      "lookup h (keyTtlDictionary s'') k = lookup h (keyTtlDictionary s') k"
    by blast
  have "kv_get h T k s'' = Inr (s'', if T \<le> T0 + t then Some v else None)"
    using s'(3,4) s''(3,4)
    by (auto simp: kv_get_inv [OF s''(2)] expiredAt_def add.commute)
  with s'(1) s''(1) show ?thesis
    by blast
qed

theorem set_with_ttl_then_get_witness:
  "reachable stringHash expiredEntryStorage \<and> (0 :: int) < 10 \<and>
   inIntRange 3 \<and> inIntRange 10 \<and> inIntRange (3 + 10) \<and>
   \<not> touches ''key1'' (Get ''k'' :: (string, string) request) \<and>
   \<not> touches ''key1'' (Set 300 301 ''other'' ''w'' 1) \<and>
   \<not> touches ''key1'' (Advance 10 :: (string, string) request) \<and>
   (\<exists>s' s'' rs.
      kv_set stringHash 3 200 201 ''key1'' ''value1_new'' 10 expiredEntryStorage = Inr s' \<and>
      run stringHash [Get ''k'', Set 300 301 ''other'' ''w'' 1, Advance 10] (3, s') =
        Inr ((13, s''), rs) \<and>
      kv_get stringHash 13 ''key1'' s'' = Inr (s'', Some ''value1_new''))"
proof -
  let ?cs = "[Get ''k'', Set 300 301 ''other'' ''w'' 1, Advance 10 :: (string, string) request]"
  have untouched: "\<forall>c \<in> set ?cs. \<not> touches ''key1'' c"
    by simp
  have range: "inIntRange 3" "inIntRange 10" "inIntRange (3 + 10)"
    by (simp_all add: inIntRange_def INT_MIN_def INT_MAX_def)
  have pos: "(0 :: int) < 10"
    by simp
  from set_with_ttl_then_get
    [OF reachable_expiredEntryStorage pos range untouched, of 200 201 "''value1_new''"]
  obtain s' T s'' rs where
    s': "kv_set stringHash 3 200 201 ''key1'' ''value1_new'' 10 expiredEntryStorage = Inr s'"
    and run: "run stringHash ?cs (3, s') = Inr ((T, s''), rs)"
    and get: "kv_get stringHash T ''key1'' s'' =
                Inr (s'', if T \<le> 3 + 10 then Some ''value1_new'' else None)"
    by auto
  have "\<exists>s1 s2 rs2.
          kv_set stringHash 3 200 201 ''key1'' ''value1_new'' 10 expiredEntryStorage = Inr s1 \<and>
          run stringHash ?cs (3, s1) = Inr ((13, s2), rs2)"
    by (simp add: storage_eval expiredEntryStorage_def)
  with s' run have "T = 13"
    by auto
  with s' run get reachable_expiredEntryStorage untouched range show ?thesis
    by auto
qed

text \<open>
  C4, as stated, fails at the boundary: after \<^verbatim>\<open>set("k", "v", 5)\<close> at time \<open>0\<close>, \<^verbatim>\<open>get("k")\<close>
  at time \<open>5 = T0 + t\<close> returns the value, where the claim has it return nothing.
\<close>

theorem get_at_expiration_time_returns_value:
  "replies (run stringHash [Set 100 101 ''k'' ''v'' 5, Advance 5, Get ''k''] (0, newStorage)) =
     Inr [Done, Done, Value (Some ''v'')]"
  by (simp add: storage_eval)

text \<open>
  C10, as the code has it.  In a reachable storage, let \<open>k\<close> be a key that is stored (its
  entry has not been removed) and for which \<open>get\<close> returns nothing at the clock reading
  \<open>now\<close>, that is, an expired entry.  Let \<open>set\<close> of \<open>k\<close> to \<open>v\<close> with a time to live \<open>t > 0\<close>
  run at the clock reading \<open>T\<close>, where \<open>T\<close>, \<open>t\<close> and the sum \<open>T + t\<close> are in the range of
  \<^verbatim>\<open>int\<close>.  It succeeds, the expiration time it stores for \<open>k\<close> is \<open>T + t\<close>, and \<open>get\<close> of \<open>k\<close>
  returns \<open>v\<close> at every clock reading up to \<open>T + t\<close>.
\<close>

theorem set_overwrites_expired_entry:
  assumes "reachable h s"
    and "lookup h (keyValueDictionary s) k \<noteq> None"
    and "kv_get h now k s = Inr (s, None)"
    and "0 < t"
    and "inIntRange T" and "inIntRange t" and "inIntRange (T + t)"
    and "c \<le> T + t"
  shows "\<exists>s'. kv_set h T aKey aTtl k v t s = Inr s' \<and>
           lookup h (keyTtlDictionary s') k = Some (T + t) \<and>
           kv_get h c k s' = Inr (s', Some v)"
proof -
  from assms(1) have inv: "storageInv h s"
    by (rule reachable_storageInv)
  from assms(7) have wrap: "intWrap (t + T) = t + T"
    by (simp add: intWrap_id add.commute)
  with kv_set_inv [OF inv, of T aKey aTtl k v t] assms(4) obtain s' where
    s': "kv_set h T aKey aTtl k v t s = Inr s'"
      "lookup h (keyTtlDictionary s') k = Some (t + T)"
    by auto
  from set_then_get [OF inv, of T aKey aTtl k v t c] s'(1) assms(4,8) wrap
  have "kv_get h c k s' = Inr (s', Some v)"
    by (auto simp: add.commute)
  with s' show ?thesis
    by (simp add: add.commute)
qed

theorem set_overwrites_expired_entry_witness:
  "reachable stringHash expiredEntryStorage \<and>
   lookup stringHash (keyValueDictionary expiredEntryStorage) ''k'' \<noteq> None \<and>
   kv_get stringHash 2 ''k'' expiredEntryStorage = Inr (expiredEntryStorage, None) \<and>
   (0 :: int) < 5 \<and> inIntRange 2 \<and> inIntRange 5 \<and> inIntRange (2 + 5) \<and> (4 :: int) \<le> 2 + 5 \<and>
   (\<exists>s'. kv_set stringHash 2 200 201 ''k'' ''new'' 5 expiredEntryStorage = Inr s' \<and>
         lookup stringHash (keyTtlDictionary s') ''k'' = Some (2 + 5) \<and>
         kv_get stringHash 4 ''k'' s' = Inr (s', Some ''new''))"
proof -
  have present: "lookup stringHash (keyValueDictionary expiredEntryStorage) ''k'' \<noteq> None"
    by (simp add: lookup_def expiredEntryStorage_def stringHash_def)
  have expired: "kv_get stringHash 2 ''k'' expiredEntryStorage = Inr (expiredEntryStorage, None)"
    by (simp add: storage_eval expiredEntryStorage_def)
  have range: "inIntRange 2" "inIntRange 5" "inIntRange (2 + 5)"
    by (simp_all add: inIntRange_def INT_MIN_def INT_MAX_def)
  have pos: "(0 :: int) < 5" and before: "(4 :: int) \<le> 2 + 5"
    by simp_all
  from set_overwrites_expired_entry
    [OF reachable_expiredEntryStorage present expired pos range before, of 200 201 "''new''"]
    reachable_expiredEntryStorage present expired range
  show ?thesis
    by simp
qed

text \<open>
  C10, as stated, fails where the sum leaves the range of \<^verbatim>\<open>int\<close>.  After
  \<^verbatim>\<open>set("k", "old", 1)\<close> at time \<open>0\<close> the entry of \<open>k\<close> has expired at time \<open>2\<close> and is still
  stored.  \<^verbatim>\<open>set("k", "v", 2147483647)\<close> at time \<open>2\<close> stores the expiration
  \<open>2147483647 + 2\<close> in \<^verbatim>\<open>int\<close>, which is \<open>- 2147483647\<close>, and \<open>get\<close> of \<open>k\<close> still returns nothing.
\<close>

theorem set_with_overflowing_ttl_stays_expired:
  "replies (run stringHash
      [Set 100 101 ''k'' ''old'' 1, Advance 2, Get ''k'', Set 200 201 ''k'' ''v'' 2147483647,
       Get ''k'']
      (0, newStorage)) =
     Inr [Done, Done, Value None, Done, Value None]"
  by (simp add: storage_eval)

subsection \<open>Scheduling of the rehash\<close>

text \<open>
  C6, as the code has it.  Let the dictionary not be rehashing and let the capacity recorded
  in \<^verbatim>\<open>_dictionarySize\<close> be below \<open>2 ^ 31\<close>.  An operation schedules a rehash exactly when
  \<^verbatim>\<open>_dictionarySize\<close> exceeds \<open>8\<close>, the count \<^verbatim>\<open>_dictionaryUsed\<close> is not zero, and the quotient
  \<^verbatim>\<open>_dictionaryUsed / _dictionarySize\<close> is below the low limit (the \<^verbatim>\<open>float\<close> \<^verbatim>\<open>0.01f\<close>, which is
  \<open>5368709 / 536870912\<close>) or above the high limit (the \<^verbatim>\<open>float\<close> \<^verbatim>\<open>1.2f\<close>, which is
  \<open>5033165 / 4194304\<close>).  The capacity of the alternative array is then half of
  \<^verbatim>\<open>_dictionarySize\<close>, rounded down, when the quotient is below the low limit, and twice
  \<^verbatim>\<open>_dictionarySize\<close> otherwise.  In every other case the operation leaves the dictionary as
  it is; so an empty dictionary and a dictionary of capacity at most \<open>8\<close> never schedule a
  rehash.  Capacity and count are the two counters as the dictionary keeps them: a rehash
  updates neither, so after one they are no longer the length of the bucket array and the
  number of nodes in it.
\<close>

theorem rehash_scheduled_iff:
  assumes "\<not> isRehashing d" and "dictionarySize d < 2 ^ 31"
  shows "preCommandActions d =
           (if 8 < dictionarySize d \<and> dictionaryUsed d \<noteq> 0 \<and>
               (536870912 * dictionaryUsed d < 5368709 * dictionarySize d \<or>
                5033165 * dictionarySize d < 4194304 * dictionaryUsed d)
            then
              rehash (d\<lparr>alternativeDictionarySize :=
                          (if 536870912 * dictionaryUsed d < 5368709 * dictionarySize d
                           then dictionarySize d div 2 else dictionarySize d * 2),
                        alternativeDictionary :=
                          replicate
                            (if 536870912 * dictionaryUsed d < 5368709 * dictionarySize d
                             then dictionarySize d div 2 else dictionarySize d * 2) [],
                        rehashIndex := 0\<rparr>)
            else Inr d)"
proof (cases "8 < dictionarySize d")
  case False
  with assms(1) show ?thesis
    by (simp add: preCommandActions_def isNeedRehash_def BASIC_DICTIONARY_SIZE_def)
next
  case True
  then have pos: "0 < dictionarySize d"
    by simp
  from True assms(1) show ?thesis
    by (simp add: preCommandActions_def isNeedRehash_def BASIC_DICTIONARY_SIZE_def
        prepareRehash_def Let_def fillFactor_low_iff [OF pos assms(2)]
        fillFactor_high_iff [OF pos assms(2)])
qed

theorem rehash_scheduled_iff_witness:
  "\<not> isRehashing oneEntryDictionary \<and>
   dictionarySize oneEntryDictionary < 2 ^ 31 \<and>
   preCommandActions oneEntryDictionary =
     rehash (oneEntryDictionary
       \<lparr>alternativeDictionarySize := 50, alternativeDictionary := replicate 50 [],
          rehashIndex := 0\<rparr>)"
proof -
  have idle: "\<not> isRehashing oneEntryDictionary"
    by (simp add: isRehashing_def oneEntryDictionary_def)
  have small: "dictionarySize oneEntryDictionary < 2 ^ 31"
    by (simp add: oneEntryDictionary_def)
  from rehash_scheduled_iff [OF idle small] idle small show ?thesis
    by (simp add: oneEntryDictionary_def)
qed

text \<open>
  C6, as stated, fails on an empty dictionary of capacity \<open>16\<close>: the capacity exceeds \<open>8\<close> and
  the fill factor \<open>0\<close> is below \<open>0.01\<close>, outside the band, and no rehash is scheduled.
\<close>

theorem empty_dictionary_schedules_no_rehash:
  "BASIC_DICTIONARY_SIZE < dictionarySize (newDictionary 16 :: (nat, string) Dictionary) \<and>
   fillFactor (newDictionary 16 :: (nat, string) Dictionary) < 1 / 100 \<and>
   \<not> isNeedRehash (newDictionary 16 :: (nat, string) Dictionary) \<and>
   preCommandActions (newDictionary 16 :: (nat, string) Dictionary) = Inr (newDictionary 16)"
  by (simp add: newDictionary_def BASIC_DICTIONARY_SIZE_def fillFactor_def roundDouble_def
      isNeedRehash_def preCommandActions_def isRehashing_def)

subsection \<open>The hash functor does not show in the replies\<close>

lemma removeOneExpiredEntry_cases:
  assumes "storageInv h s"
  shows "removeOneExpiredEntry h now s =
           (case setSortedTtlPtr s of
              [] \<Rightarrow> Inr (s, None)
            | it # rest \<Rightarrow>
                if snd (snd it) < now then
                  (case lookup h (keyValueDictionary s) (snd (fst it)) of
                     None \<Rightarrow> Inl BadOptionalAccess
                   | Some v \<Rightarrow>
                       faultBind (kv_remove h (snd (fst it)) s)
                         (\<lambda>(s1, removed). Inr (s1, Some (snd (fst it), v))))
                else Inr (s, None))"
proof -
  from assms have "dict_get h k (keyValueDictionary s) =
      Inr (keyValueDictionary s, lookup h (keyValueDictionary s) k)" for k
    by (simp add: storageInv_def dict_get_stable)
  then show ?thesis
    by (simp add: removeOneExpiredEntry_def faultBind_def Let_def
        split: list.splits option.splits)
qed

lemma liveEntries_sameContent:
  assumes "sameContent h h' s s'"
  shows "liveEntries h now s it = liveEntries h' now s' it"
  using assms by (induction it) (auto simp: sameContent_def expiredAt_def split: option.splits)

lemma sameOutcome_set:
  assumes "storageInv h s" "storageInv h' s'" "sameContent h h' s s'"
  shows "\<exists>s1 s1'. kv_set h now aKey aTtl k v ttl s = Inr s1 \<and>
           kv_set h' now aKey aTtl k v ttl s' = Inr s1' \<and>
           storageInv h s1 \<and> storageInv h' s1' \<and> sameContent h h' s1 s1'"
proof -
  from kv_set_inv [OF assms(1), of now aKey aTtl k v ttl] obtain s1 where
    s1: "kv_set h now aKey aTtl k v ttl s = Inr s1" "storageInv h s1"
      "\<And>k'. lookup h (keyValueDictionary s1) k' =
              (if k' = k then Some v else lookup h (keyValueDictionary s) k')"
      "\<And>k'. lookup h (keyTtlDictionary s1) k' =
              (if k' = k \<and> ttl \<noteq> 0 then Some (intWrap (ttl + now))
               else lookup h (keyTtlDictionary s) k')"
      "setSortedKeyPtr s1 = std_set_insert ComparatorPtrKey (aKey, k) (setSortedKeyPtr s)"
      "setSortedTtlPtr s1 =
         (if ttl \<noteq> 0
          then std_set_insert pairLess ((aKey, k), (aTtl, intWrap (ttl + now))) (setSortedTtlPtr s)
          else setSortedTtlPtr s)"
    by blast
  from kv_set_inv [OF assms(2), of now aKey aTtl k v ttl] obtain s1' where
    s1': "kv_set h' now aKey aTtl k v ttl s' = Inr s1'" "storageInv h' s1'"
      "\<And>k'. lookup h' (keyValueDictionary s1') k' =
              (if k' = k then Some v else lookup h' (keyValueDictionary s') k')"
      "\<And>k'. lookup h' (keyTtlDictionary s1') k' =
              (if k' = k \<and> ttl \<noteq> 0 then Some (intWrap (ttl + now))
               else lookup h' (keyTtlDictionary s') k')"
      "setSortedKeyPtr s1' = std_set_insert ComparatorPtrKey (aKey, k) (setSortedKeyPtr s')"
      "setSortedTtlPtr s1' =
         (if ttl \<noteq> 0
          then std_set_insert pairLess ((aKey, k), (aTtl, intWrap (ttl + now))) (setSortedTtlPtr s')
          else setSortedTtlPtr s')"
    by blast
  from assms(3) have "sameContent h h' s1 s1'"
    unfolding sameContent_def
    by (simp add: fun_eq_iff s1(3,4,5,6) s1'(3,4,5,6))
  with s1(1,2) s1'(1,2) show ?thesis
    by blast
qed

lemma sameOutcome_remove:
  assumes "storageInv h s" "storageInv h' s'" "sameContent h h' s s'"
  shows "\<exists>s1 s1' r. kv_remove h k s = Inr (s1, r) \<and> kv_remove h' k s' = Inr (s1', r) \<and>
           storageInv h s1 \<and> storageInv h' s1' \<and> sameContent h h' s1 s1' \<and>
           (r \<longleftrightarrow> lookup h (keyValueDictionary s) k \<noteq> None)"
proof (cases "lookup h (keyValueDictionary s) k = None")
  case True
  with assms(3) have "lookup h' (keyValueDictionary s') k = None"
    by (simp add: sameContent_def)
  with True assms show ?thesis
    by (auto simp: kv_remove_absent)
next
  case False
  with assms(3) have present': "lookup h' (keyValueDictionary s') k \<noteq> None"
    by (simp add: sameContent_def)
  from kv_remove_present [OF assms(1) False] obtain s1 where
    s1: "kv_remove h k s = Inr (s1, True)" "storageInv h s1"
      "\<And>k'. lookup h (keyValueDictionary s1) k' =
              (if k' = k then None else lookup h (keyValueDictionary s) k')"
      "\<And>k'. lookup h (keyTtlDictionary s1) k' =
              (if k' = k then None else lookup h (keyTtlDictionary s) k')"
      "setSortedKeyPtr s1 = eraseFirst (equivalentKey k) (setSortedKeyPtr s)"
      "setSortedTtlPtr s1 = eraseFirst (\<lambda>pair. snd (fst pair) = k) (setSortedTtlPtr s)"
    by blast
  from kv_remove_present [OF assms(2) present'] obtain s1' where
    s1': "kv_remove h' k s' = Inr (s1', True)" "storageInv h' s1'"
      "\<And>k'. lookup h' (keyValueDictionary s1') k' =
              (if k' = k then None else lookup h' (keyValueDictionary s') k')"
      "\<And>k'. lookup h' (keyTtlDictionary s1') k' =
              (if k' = k then None else lookup h' (keyTtlDictionary s') k')"
      "setSortedKeyPtr s1' = eraseFirst (equivalentKey k) (setSortedKeyPtr s')"
      "setSortedTtlPtr s1' = eraseFirst (\<lambda>pair. snd (fst pair) = k) (setSortedTtlPtr s')"
    by blast
  from assms(3) have "sameContent h h' s1 s1'"
    unfolding sameContent_def
    by (simp add: fun_eq_iff s1(3,4,5,6) s1'(3,4,5,6))
  with s1(1,2) s1'(1,2) False show ?thesis
    by blast
qed

lemma sameOutcome_call:
  assumes "storageInv h s" "storageInv h' s'" "sameContent h h' s s'"
  shows "sameOutcome h h' (call h c (now, s)) (call h' c (now, s')) \<and>
         (\<forall>t1 s1 r. call h c (now, s) = Inr ((t1, s1), r) \<longrightarrow> storageInv h s1) \<and>
         (\<forall>t1 s1 r. call h' c (now, s') = Inr ((t1, s1), r) \<longrightarrow> storageInv h' s1)"
proof -
  have inv: "\<forall>t1 s1 r. call h c (now, s) = Inr ((t1, s1), r) \<longrightarrow> storageInv h s1"
    using call_storageInv [OF assms(1)] by blast
  have inv': "\<forall>t1 s1 r. call h' c (now, s') = Inr ((t1, s1), r) \<longrightarrow> storageInv h' s1"
    using call_storageInv [OF assms(2)] by blast
  have "sameOutcome h h' (call h c (now, s)) (call h' c (now, s'))"
  proof (cases c)
    case (Set aKey aTtl k v ttl)
    from sameOutcome_set [OF assms, of now aKey aTtl k v ttl] Set show ?thesis
      by (auto simp: sameOutcome_def faultBind_def)
  next
    case (Remove k)
    from sameOutcome_remove [OF assms, of k] Remove show ?thesis
      by (auto simp: sameOutcome_def faultBind_def)
  next
    case (Get k)
    from assms(3) have "expiredAt h now s k = expiredAt h' now s' k"
      "lookup h (keyValueDictionary s) k = lookup h' (keyValueDictionary s') k"
      by (simp_all add: sameContent_def expiredAt_def)
    with Get assms show ?thesis
      by (simp add: sameOutcome_def faultBind_def kv_get_inv)
  next
    case (GetManySorted k count)
    from assms(3) have "setSortedKeyPtr s = setSortedKeyPtr s'"
      by (simp add: sameContent_def)
    with GetManySorted assms liveEntries_sameContent [OF assms(3)] show ?thesis
      by (simp add: sameOutcome_def faultBind_def getManySorted_inv)
  next
    case RemoveOneExpiredEntry
    from assms(3) have ttls: "setSortedTtlPtr s' = setSortedTtlPtr s"
      and kv: "lookup h' (keyValueDictionary s') = lookup h (keyValueDictionary s)"
      by (simp_all add: sameContent_def)
    show ?thesis
    proof (cases "setSortedTtlPtr s")
      case Nil
      with RemoveOneExpiredEntry assms ttls show ?thesis
        by (simp add: sameOutcome_def faultBind_def removeOneExpiredEntry_cases)
    next
      case (Cons it rest)
      show ?thesis
      proof (cases "snd (snd it) < now")
        case False
        with Cons RemoveOneExpiredEntry assms ttls show ?thesis
          by (simp add: sameOutcome_def faultBind_def removeOneExpiredEntry_cases)
      next
        case True
        show ?thesis
        proof (cases "lookup h (keyValueDictionary s) (snd (fst it))")
          case None
          with True Cons RemoveOneExpiredEntry assms(1,2) ttls kv show ?thesis
            by (simp add: sameOutcome_def faultBind_def removeOneExpiredEntry_cases)
        next
          case (Some v)
          from sameOutcome_remove [OF assms, of "snd (fst it)"] obtain s1 s1' r where
            "kv_remove h (snd (fst it)) s = Inr (s1, r)"
            "kv_remove h' (snd (fst it)) s' = Inr (s1', r)"
            "sameContent h h' s1 s1'"
            by blast
          with Some True Cons RemoveOneExpiredEntry assms(1,2) ttls kv show ?thesis
            by (simp add: sameOutcome_def faultBind_def removeOneExpiredEntry_cases)
        qed
      qed
    qed
  next
    case (Advance sec)
    with assms(3) show ?thesis
      by (simp add: sameOutcome_def)
  qed
  with inv inv' show ?thesis
    by blast
qed


lemma sameContent_newStorage: "sameContent h h' newStorage newStorage"
  by (simp add: sameContent_def newStorage_def fun_eq_iff lookup_newDictionary
      BASIC_DICTIONARY_SIZE_def)

lemma sameOutcome_run:
  assumes "storageInv h s" "storageInv h' s'" "sameContent h h' s s'"
  shows "sameOutcome h h' (run h cs (now, s)) (run h' cs (now, s'))"
  using assms
proof (induction cs arbitrary: now s s')
  case Nil
  then show ?case
    by (simp add: sameOutcome_def)
next
  case (Cons c cs)
  from sameOutcome_call [OF Cons.prems, of c now]
  have same: "sameOutcome h h' (call h c (now, s)) (call h' c (now, s'))"
    and inv: "\<And>t1 s1 r. call h c (now, s) = Inr ((t1, s1), r) \<Longrightarrow> storageInv h s1"
    and inv': "\<And>t1 s1 r. call h' c (now, s') = Inr ((t1, s1), r) \<Longrightarrow> storageInv h' s1"
    by blast+
  show ?case
  proof (cases "call h c (now, s)")
    case (Inl e)
    with same have "call h' c (now, s') = Inl e"
      by (simp add: sameOutcome_def)
    with Inl show ?thesis
      by (simp add: sameOutcome_def faultBind_def)
  next
    case (Inr x)
    obtain t1 s1 r where x: "x = ((t1, s1), r)"
      by (metis prod.collapse)
    from same Inr x obtain s1' where
      c': "call h' c (now, s') = Inr ((t1, s1'), r)" and sc: "sameContent h h' s1 s1'"
      by (auto simp: sameOutcome_def split: sum.splits)
    from Inr x have "storageInv h s1"
      by (intro inv) simp
    moreover from c' have "storageInv h' s1'"
      by (rule inv')
    ultimately have ih: "sameOutcome h h' (run h cs (t1, s1)) (run h' cs (t1, s1'))"
      using sc by (rule Cons.IH)
    show ?thesis
    proof (cases "run h cs (t1, s1)")
      case e: (Inl e)
      with ih have "run h' cs (t1, s1') = Inl e"
        by (simp add: sameOutcome_def)
      with e Inr x c' show ?thesis
        by (simp add: sameOutcome_def faultBind_def)
    next
      case y: (Inr y)
      with ih obtain y' where y': "run h' cs (t1, s1') = Inr y'"
        "fst (fst y) = fst (fst y')" "snd y = snd y'"
        "sameContent h h' (snd (fst y)) (snd (fst y'))"
        by (auto simp: sameOutcome_def split: sum.splits)
      with y Inr x c' show ?thesis
        by (simp add: sameOutcome_def faultBind_def split_beta)
    qed
  qed
qed

text \<open>
  What a run from the empty storage replies, and the content of the storage it ends in, are
  the same for every hash functor.
\<close>

lemma run_any_hash:
  assumes "run h' cs (t, newStorage) = Inr ((t1, s1'), rs)"
  shows "\<exists>s1. run h cs (t, newStorage) = Inr ((t1, s1), rs) \<and> sameContent h h' s1 s1'"
proof -
  have "sameOutcome h h' (run h cs (t, newStorage)) (run h' cs (t, newStorage))"
    by (intro sameOutcome_run storageInv_newStorage sameContent_newStorage)
  with assms show ?thesis
    by (cases "run h cs (t, newStorage)") (auto simp: sameOutcome_def)
qed

lemma run_any_hash_fault:
  assumes "run h' cs (t, newStorage) = Inl e"
  shows "run h cs (t, newStorage) = Inl e"
proof -
  have "sameOutcome h h' (run h cs (t, newStorage)) (run h' cs (t, newStorage))"
    by (intro sameOutcome_run storageInv_newStorage sameContent_newStorage)
  with assms show ?thesis
    by (cases "run h cs (t, newStorage)") (auto simp: sameOutcome_def)
qed

lemma replies_any_hash:
  "replies (run h cs (t, newStorage)) = replies (run h' cs (t, newStorage))"
proof (cases "run h' cs (t, newStorage)")
  case (Inl e)
  with run_any_hash_fault [OF Inl, of h] show ?thesis
    by simp
next
  case (Inr x)
  obtain t1 s1' rs where x: "x = ((t1, s1'), rs)"
    by (metis prod.collapse)
  with Inr run_any_hash [of h' cs t t1 s1' rs h] show ?thesis
    by (auto simp: replies_def)
qed

subsection \<open>Where the code departs from the specification\<close>

text \<open>
  C1.  \<^verbatim>\<open>_setSortedTtlPtr\<close> is ordered by the addresses of its handles, not by expiration
  time, and \<open>removeOneExpiredEntry\<close> looks at its first element only.  After
  \<^verbatim>\<open>set("x", "vx", 10)\<close> and \<^verbatim>\<open>set("y", "vy", 1)\<close> at time \<open>0\<close>, the handles of the first call
  at the lower addresses, the first element at time \<open>2\<close> is the one of \<open>x\<close>, which has not
  expired: \<open>removeOneExpiredEntry\<close> returns nothing although \<open>y\<close> has expired (\<open>get\<close> of \<open>y\<close>
  returns nothing).  After two calls \<^verbatim>\<open>set("k", "v", 1)\<close> the set holds two elements for \<open>k\<close>,
  whichever way their addresses compare: at time \<open>2\<close> the first \<open>removeOneExpiredEntry\<close>
  returns the entry of \<open>k\<close> and the second one ends in \<^verbatim>\<open>std::bad_optional_access\<close> instead
  of returning nothing.  This holds for every hash functor \<open>h\<close>.
\<close>

theorem removeOneExpiredEntry_misses_expired_entry:
  "replies (run h
      [Set 100 101 ''x'' ''vx'' 10, Set 200 201 ''y'' ''vy'' 1, Advance 2,
       RemoveOneExpiredEntry, Get ''y'']
      (0, newStorage)) =
     Inr [Done, Done, Done, Entry None, Value None] \<and>
   replies (run h
      [Set 100 101 ''k'' ''v'' 1, Set 200 201 ''k'' ''v'' 1, Advance 2, RemoveOneExpiredEntry]
      (0, newStorage)) =
     Inr [Done, Done, Done, Entry (Some (''k'', ''v''))] \<and>
   replies (run h
      [Set 100 101 ''k'' ''v'' 1, Set 200 201 ''k'' ''v'' 1, Advance 2, RemoveOneExpiredEntry,
       RemoveOneExpiredEntry]
      (0, newStorage)) =
     Inl BadOptionalAccess \<and>
   replies (run h
      [Set 200 201 ''k'' ''v'' 1, Set 100 101 ''k'' ''v'' 1, Advance 2, RemoveOneExpiredEntry,
       RemoveOneExpiredEntry]
      (0, newStorage)) =
     Inl BadOptionalAccess"
  unfolding replies_any_hash [of h _ _ stringHash] by (simp add: storage_eval)

text \<open>
  C2.  After \<^verbatim>\<open>set("k", "v1", 5)\<close> and then \<^verbatim>\<open>set("k", "v", 0)\<close> at time \<open>0\<close>, \<open>get\<close> of \<open>k\<close>
  returns \<open>v\<close> at time \<open>0\<close> and nothing at time \<open>6\<close>, with no \<open>set\<close> or \<open>remove\<close> of \<open>k\<close> in
  between: the expiration time of the first call is still in \<^verbatim>\<open>_keyTtlDictionary\<close>.  This
  holds for every hash functor \<open>h\<close>.
\<close>

theorem permanent_set_keeps_old_expiration:
  "replies (run h
      [Set 100 101 ''k'' ''v1'' 5, Set 200 201 ''k'' ''v'' 0, Get ''k'', Advance 6, Get ''k'']
      (0, newStorage)) =
     Inr [Done, Done, Value (Some ''v''), Done, Value None]"
  unfolding replies_any_hash [of h _ _ stringHash] by (simp add: storage_eval)

text \<open>
  C3.  \<open>removeOneExpiredEntry\<close> ends in \<^verbatim>\<open>std::bad_optional_access\<close> in a reachable state:
  after two calls \<^verbatim>\<open>set("k", "v", 1)\<close> and \<^verbatim>\<open>remove("k")\<close>, one element for \<open>k\<close> is left in
  \<^verbatim>\<open>_setSortedTtlPtr\<close>, and at time \<open>2\<close> the value of \<open>k\<close> is read from an empty optional.
  This holds for every hash functor \<open>h\<close>.
\<close>

theorem removeOneExpiredEntry_throws:
  "replies (run h
      [Set 100 101 ''k'' ''v'' 1, Set 200 201 ''k'' ''v'' 1, Remove ''k'', Advance 2,
       RemoveOneExpiredEntry]
      (0, newStorage)) =
     Inl BadOptionalAccess"
  unfolding replies_any_hash [of h _ _ stringHash] by (simp add: storage_eval)

text \<open>
  C5.  The loop of \<^verbatim>\<open>rehash\<close> deletes the nodes of the buckets it passes; it moves none of
  them to the alternative array.  In a dictionary of \<open>101\<close> buckets, \<^verbatim>\<open>set(5, "v")\<close> followed
  by \<^verbatim>\<open>get(5)\<close> returns nothing: the fill factor \<open>1 / 101\<close> is below the low limit, the \<open>get\<close>
  starts a rehash and its first step empties the buckets \<open>0\<close> to \<open>31\<close>.  In a dictionary of
  \<open>9\<close> buckets, eleven keys are set; the next operation starts the growth rehash, which empties
  all nine buckets and completes at once, and none of the eleven keys is found afterwards.
\<close>

theorem rehash_loses_keys:
  "faultBind (FillDictionary identityHash [(5, ''v'')] (newDictionary 101))
     (CheckValues identityHash [5]) =
     Inr [None] \<and>
   faultBind
     (FillDictionary identityHash
        [(0, ''v0''), (1, ''v1''), (2, ''v2''), (3, ''v3''), (4, ''v4''), (5, ''v5''),
         (6, ''v6''), (7, ''v7''), (8, ''v8''), (9, ''v9''), (10, ''v10'')]
        (newDictionary 9))
     (CheckValues identityHash [0, 1, 2, 3, 4, 5, 6, 7, 8, 9, 10]) =
     Inr [None, None, None, None, None, None, None, None, None, None, None]"
  by (simp add: dictionary_eval del: rehashLoop.simps)

text \<open>
  C8.  After \<^verbatim>\<open>set("k", "v", 1)\<close> and \<^verbatim>\<open>set("k", "v", 2)\<close>, \<^verbatim>\<open>remove("k")\<close> returns true and
  erases one of the two elements of \<open>k\<close> from \<^verbatim>\<open>_setSortedTtlPtr\<close>; the other one stays.
  This holds for every hash functor \<open>h\<close>.
\<close>

theorem remove_leaves_expiration_entry:
  "\<exists>s. run h [Set 100 101 ''k'' ''v'' 1, Set 200 201 ''k'' ''v'' 2, Remove ''k'']
          (0, newStorage) =
          Inr ((0, s), [Done, Done, Removed True]) \<and>
        setSortedTtlPtr s = [((200, ''k''), (201, 2))]"
proof -
  let ?cs = "[Set 100 101 ''k'' ''v'' 1, Set 200 201 ''k'' ''v'' 2, Remove ''k'']"
  have "\<exists>s'. run stringHash ?cs (0, newStorage) = Inr ((0, s'), [Done, Done, Removed True]) \<and>
          setSortedTtlPtr s' = [((200, ''k''), (201, 2))]"
    by (simp add: storage_eval)
  then obtain s' where
    s': "run stringHash ?cs (0, newStorage) = Inr ((0, s'), [Done, Done, Removed True])"
      "setSortedTtlPtr s' = [((200, ''k''), (201, 2))]"
    by blast
  from run_any_hash [OF s'(1), of h] s'(2) show ?thesis
    by (auto simp: sameContent_def)
qed

text \<open>
  C9.  After \<^verbatim>\<open>set("k", "v1", 5)\<close> and \<^verbatim>\<open>set("k", "v", 0)\<close> the key \<open>k\<close>, which the last
  \<open>set\<close> made permanent, is still in the expiration index and in the expiration-ordered set.
  After \<^verbatim>\<open>set("k", "v", 1)\<close>, \<^verbatim>\<open>set("k", "v", 2)\<close> and \<^verbatim>\<open>remove("k")\<close> the key is in neither
  dictionary and not in the key-ordered set, and still in the expiration-ordered set.  This
  holds for every hash functor \<open>h\<close>.
\<close>

theorem expiration_bookkeeping_not_purged:
  "(\<exists>s. run h [Set 100 101 ''k'' ''v1'' 5, Set 200 201 ''k'' ''v'' 0] (0, newStorage) =
           Inr ((0, s), [Done, Done]) \<and>
         lookup h (keyValueDictionary s) ''k'' = Some ''v'' \<and>
         lookup h (keyTtlDictionary s) ''k'' = Some 5 \<and>
         setSortedTtlPtr s = [((100, ''k''), (101, 5))]) \<and>
   (\<exists>s. run h [Set 100 101 ''k'' ''v'' 1, Set 200 201 ''k'' ''v'' 2, Remove ''k'']
           (0, newStorage) =
           Inr ((0, s), [Done, Done, Removed True]) \<and>
         lookup h (keyValueDictionary s) ''k'' = None \<and>
         lookup h (keyTtlDictionary s) ''k'' = None \<and>
         setSortedKeyPtr s = [] \<and>
         setSortedTtlPtr s = [((200, ''k''), (201, 2))])"
proof -
  let ?a = "[Set 100 101 ''k'' ''v1'' 5, Set 200 201 ''k'' ''v'' 0]"
  let ?b = "[Set 100 101 ''k'' ''v'' 1, Set 200 201 ''k'' ''v'' 2, Remove ''k'']"
  have "\<exists>s'. run stringHash ?a (0, newStorage) = Inr ((0, s'), [Done, Done]) \<and>
          lookup stringHash (keyValueDictionary s') ''k'' = Some ''v'' \<and>
          lookup stringHash (keyTtlDictionary s') ''k'' = Some 5 \<and>
          setSortedTtlPtr s' = [((100, ''k''), (101, 5))]"
    by (simp add: storage_eval lookup_def)
  then obtain sa where
    sa: "run stringHash ?a (0, newStorage) = Inr ((0, sa), [Done, Done])"
      "lookup stringHash (keyValueDictionary sa) ''k'' = Some ''v''"
      "lookup stringHash (keyTtlDictionary sa) ''k'' = Some 5"
      "setSortedTtlPtr sa = [((100, ''k''), (101, 5))]"
    by blast
  have "\<exists>s'. run stringHash ?b (0, newStorage) = Inr ((0, s'), [Done, Done, Removed True]) \<and>
          lookup stringHash (keyValueDictionary s') ''k'' = None \<and>
          lookup stringHash (keyTtlDictionary s') ''k'' = None \<and>
          setSortedKeyPtr s' = [] \<and>
          setSortedTtlPtr s' = [((200, ''k''), (201, 2))]"
    by (simp add: storage_eval lookup_def)
  then obtain sb where
    sb: "run stringHash ?b (0, newStorage) = Inr ((0, sb), [Done, Done, Removed True])"
      "lookup stringHash (keyValueDictionary sb) ''k'' = None"
      "lookup stringHash (keyTtlDictionary sb) ''k'' = None"
      "setSortedKeyPtr sb = []"
      "setSortedTtlPtr sb = [((200, ''k''), (201, 2))]"
    by blast
  from run_any_hash [OF sa(1), of h] sa(2-4)
  have first: "\<exists>s. run h ?a (0, newStorage) = Inr ((0, s), [Done, Done]) \<and>
      lookup h (keyValueDictionary s) ''k'' = Some ''v'' \<and>
      lookup h (keyTtlDictionary s) ''k'' = Some 5 \<and>
      setSortedTtlPtr s = [((100, ''k''), (101, 5))]"
    by (auto simp: sameContent_def)
  from run_any_hash [OF sb(1), of h] sb(2-5)
  have "\<exists>s. run h ?b (0, newStorage) = Inr ((0, s), [Done, Done, Removed True]) \<and>
      lookup h (keyValueDictionary s) ''k'' = None \<and>
      lookup h (keyTtlDictionary s) ''k'' = None \<and>
      setSortedKeyPtr s = [] \<and>
      setSortedTtlPtr s = [((200, ''k''), (201, 2))]"
    by (auto simp: sameContent_def)
  with first show ?thesis
    by blast
qed

end
